theory Spec2Isabelle
  imports Main "HOL-Library.Code_Target_Nat"
begin

section \<open>Go strings and the library functions the program calls\<close>

text \<open>
  A Go \<open>string\<close> is a sequence of bytes; it is modelled as a \<open>string\<close> (a list of
  8-bit \<open>char\<close>s) and \<open>len\<close> is \<open>length\<close>. Byte values are read as natural numbers.
  The functions of this section are those of the Go standard library that
  \<open>quickmail.go\<close> calls (\<open>unicode/utf8\<close>, \<open>strings\<close>, \<open>encoding/base64\<close>, \<open>mime\<close>);
  they are transcribed from the library's sources, keeping its names.
\<close>

abbreviation byte :: "char \<Rightarrow> nat" where
  "byte c \<equiv> of_char c"

definition LF :: char where
  "LF = CHR 0x0A"

subsection \<open>unicode/utf8\<close>

definition RuneError :: nat where
  "RuneError = 0xFFFD"

text \<open>The table \<open>first\<close>: information about the first byte of a UTF-8 sequence.\<close>

definition utf8_first :: "nat \<Rightarrow> nat" where
  "utf8_first b =
     (if b < 0x80 then 0xF0
      else if b < 0xC2 then 0xF1
      else if b < 0xE0 then 0x02
      else if b = 0xE0 then 0x13
      else if b < 0xED then 0x03
      else if b = 0xED then 0x23
      else if b < 0xF0 then 0x03
      else if b = 0xF0 then 0x34
      else if b < 0xF4 then 0x04
      else if b = 0xF4 then 0x44
      else 0xF1)"

definition acceptRanges :: "nat \<Rightarrow> nat \<times> nat" where
  "acceptRanges k =
     (if k = 0 then (0x80, 0xBF)
      else if k = 1 then (0xA0, 0xBF)
      else if k = 2 then (0x80, 0x9F)
      else if k = 3 then (0x90, 0xBF)
      else if k = 4 then (0x80, 0x8F)
      else (0, 0))"

text \<open>\<open>utf8.DecodeRuneInString\<close>: the first rune of \<open>s\<close> and its width in bytes.\<close>

definition DecodeRuneInString :: "string \<Rightarrow> nat \<times> nat" where
  "DecodeRuneInString s =
     (let n = length s in
      if n < 1 then (RuneError, 0)
      else
        let s0 = byte (s ! 0); x = utf8_first s0 in
        if x \<ge> 0xF0 then ((if x = 0xF1 then RuneError else s0), 1)
        else
          let sz = x mod 8; accept = acceptRanges (x div 16) in
          if n < sz then (RuneError, 1)
          else
            let s1 = byte (s ! 1) in
            if s1 < fst accept \<or> snd accept < s1 then (RuneError, 1)
            else if sz \<le> 2 then ((s0 mod 32) * 64 + s1 mod 64, 2)
            else
              let s2 = byte (s ! 2) in
              if s2 < 0x80 \<or> 0xBF < s2 then (RuneError, 1)
              else if sz \<le> 3 then ((s0 mod 16) * 4096 + (s1 mod 64) * 64 + s2 mod 64, 3)
              else
                let s3 = byte (s ! 3) in
                if s3 < 0x80 \<or> 0xBF < s3 then (RuneError, 1)
                else ((s0 mod 8) * 262144 + (s1 mod 64) * 4096 + (s2 mod 64) * 64
                        + s3 mod 64, 4))"

lemma DecodeRuneInString_width:
  "s \<noteq> [] \<Longrightarrow> 1 \<le> snd (DecodeRuneInString s) \<and> snd (DecodeRuneInString s) \<le> 4"
  by (simp add: DecodeRuneInString_def Let_def)

definition RuneStart :: "nat \<Rightarrow> bool" where
  "RuneStart b = (b div 64 \<noteq> 2)"

text \<open>The backward scan of \<open>utf8.DecodeLastRuneInString\<close>:
  \<open>for start--; start >= lim; start-- { if RuneStart(s[start]) { break } }\<close>,
  entered with \<open>start\<close> already decremented.\<close>

function lastRuneStart :: "string \<Rightarrow> int \<Rightarrow> int \<Rightarrow> int" where
  "lastRuneStart s start lim =
     (if start \<ge> lim \<and> start \<ge> 0 then
        (if RuneStart (byte (s ! nat start)) then start else lastRuneStart s (start - 1) lim)
      else start)"
  by pat_completeness auto
termination
  by (relation "measure (\<lambda>(s, start, lim). nat (start + 1))") auto

declare lastRuneStart.simps [simp del]

definition DecodeLastRuneInString :: "string \<Rightarrow> nat \<times> nat" where
  "DecodeLastRuneInString s =
     (let end = int (length s) in
      if end = 0 then (RuneError, 0)
      else
        let start = end - 1; r = byte (s ! nat start) in
        if r < 0x80 then (r, 1)
        else
          let lim = end - 4;
              lim = (if lim < 0 then 0 else lim);
              start = lastRuneStart s (start - 1) lim;
              start = (if start < 0 then 0 else start);
              (r, sz) = DecodeRuneInString (drop (nat start) s)
          in if start + int sz \<noteq> end then (RuneError, 1) else (r, sz))"

lemma lastRuneStart_le: "lastRuneStart s start lim \<le> start"
proof (induction s start lim rule: lastRuneStart.induct)
  case (1 s start lim)
  show ?case
  proof (cases "start \<ge> lim \<and> start \<ge> 0 \<and> \<not> RuneStart (byte (s ! nat start))")
    case True
    with 1 have "lastRuneStart s (start - 1) lim \<le> start - 1" by simp
    moreover from True have "lastRuneStart s start lim = lastRuneStart s (start - 1) lim"
      by (simp add: lastRuneStart.simps [of s start lim])
    ultimately show ?thesis by simp
  next
    case False
    then show ?thesis by (auto simp: lastRuneStart.simps [of s start lim])
  qed
qed

lemma DecodeLastRuneInString_width:
  assumes "s \<noteq> []"
  shows "1 \<le> snd (DecodeLastRuneInString s)"
proof -
  define st where
    "st = lastRuneStart s (int (length s) - 1 - 1)
            (if int (length s) - 4 < 0 then 0 else int (length s) - 4)"
  define start where "start = (if st < 0 then 0 else st)"
  have "st \<le> int (length s) - 2"
    unfolding st_def using lastRuneStart_le [of s "int (length s) - 1 - 1"] by simp
  with assms have lt: "nat start < length s"
    by (cases s) (auto simp: start_def)
  then have "drop (nat start) s \<noteq> []" by simp
  from DecodeRuneInString_width [OF this]
  have w: "1 \<le> snd (DecodeRuneInString (drop (nat start) s))" by simp
  have "snd (DecodeLastRuneInString s) = 1
        \<or> snd (DecodeLastRuneInString s) = snd (DecodeRuneInString (drop (nat start) s))"
    using assms unfolding DecodeLastRuneInString_def Let_def st_def [symmetric]
    by (simp add: start_def split: prod.splits)
  with w show ?thesis by auto
qed

subsection \<open>unicode\<close>

text \<open>\<open>unicode.IsSpace\<close>: the Latin-1 spaces, and beyond Latin-1 the ranges of the
  table \<open>White_Space\<close>.\<close>

definition IsSpace :: "nat \<Rightarrow> bool" where
  "IsSpace r =
     (if r \<le> 0xFF
      then r = 0x09 \<or> r = 0x0A \<or> r = 0x0B \<or> r = 0x0C \<or> r = 0x0D \<or> r = 0x20
           \<or> r = 0x85 \<or> r = 0xA0
      else r = 0x1680 \<or> (0x2000 \<le> r \<and> r \<le> 0x200A) \<or> (0x2028 \<le> r \<and> r \<le> 0x2029)
           \<or> r = 0x202F \<or> r = 0x205F \<or> r = 0x3000)"

subsection \<open>strings\<close>

definition HasPrefix :: "string \<Rightarrow> string \<Rightarrow> bool" where
  "HasPrefix s pre = (length s \<ge> length pre \<and> take (length pre) s = pre)"

definition HasSuffix :: "string \<Rightarrow> string \<Rightarrow> bool" where
  "HasSuffix s suffix =
     (length s \<ge> length suffix \<and> drop (length s - length suffix) s = suffix)"

definition TrimSuffix :: "string \<Rightarrow> string \<Rightarrow> string" where
  "TrimSuffix s suffix =
     (if HasSuffix s suffix then take (length s - length suffix) s else s)"

text \<open>\<open>strings.Index\<close>: the index of the first instance of \<open>substr\<close> in \<open>s\<close>, \<open>None\<close> for -1.\<close>

fun Index :: "string \<Rightarrow> string \<Rightarrow> nat option" where
  "Index [] substr = (if substr = [] then Some 0 else None)"
| "Index (c # cs) substr =
     (if HasPrefix (c # cs) substr then Some 0 else map_option Suc (Index cs substr))"

lemma Index_Some_nonempty: "Index s sep = Some m \<Longrightarrow> sep \<noteq> [] \<Longrightarrow> s \<noteq> []"
  by (cases s) auto

text \<open>\<open>explode\<close> splits a string into its UTF-8 sequences, an invalid byte on its own
  (the empty-separator case of \<open>strings.Split\<close>, which the program does not reach).\<close>

function explode :: "string \<Rightarrow> string list" where
  "explode s =
     (if s = [] then []
      else take (snd (DecodeRuneInString s)) s # explode (drop (snd (DecodeRuneInString s)) s))"
  by pat_completeness auto
termination
proof (relation "measure length")
  show "wf (measure length)" by simp
next
  fix s :: string
  assume "s \<noteq> []"
  then show "(drop (snd (DecodeRuneInString s)) s, s) \<in> measure length"
    using DecodeRuneInString_width [of s] by (cases s) auto
qed

declare explode.simps [simp del]

text \<open>\<open>strings.Split s sep\<close> (\<open>genSplit\<close> with no limit): cut at every instance of
  \<open>sep\<close>, found from left to right by \<open>Index\<close>.\<close>

function Split :: "string \<Rightarrow> string \<Rightarrow> string list" where
  "Split s sep =
     (if sep = [] then explode s
      else case Index s sep of
             None \<Rightarrow> [s]
           | Some m \<Rightarrow> take m s # Split (drop (m + length sep) s) sep)"
  by pat_completeness auto
termination
proof (relation "measure (\<lambda>(s, sep). length s)")
  show "wf (measure (\<lambda>(s, sep). length s))" by simp
next
  fix s sep :: string and m :: nat
  assume "sep \<noteq> []" and "Index s sep = Some m"
  then have "s \<noteq> []" by (rule Index_Some_nonempty [rotated])
  with \<open>sep \<noteq> []\<close> show "((drop (m + length sep) s, sep), s, sep) \<in> measure (\<lambda>(s, sep). length s)"
    by (cases s; cases sep) auto
qed

declare Split.simps [simp del]

definition asciiSpace :: "nat \<Rightarrow> bool" where
  "asciiSpace c = (c = 0x09 \<or> c = 0x0A \<or> c = 0x0B \<or> c = 0x0C \<or> c = 0x0D \<or> c = 0x20)"

text \<open>\<open>indexFunc s f truth\<close>: the byte index of the first rune \<open>r\<close> of \<open>s\<close> with
  \<open>f r = truth\<close> (\<open>i\<close> is the index reached so far), \<open>None\<close> for -1.\<close>

function indexFunc :: "nat \<Rightarrow> string \<Rightarrow> (nat \<Rightarrow> bool) \<Rightarrow> bool \<Rightarrow> nat option" where
  "indexFunc i s f truth =
     (if s = [] then None
      else if f (fst (DecodeRuneInString s)) = truth then Some i
      else indexFunc (i + snd (DecodeRuneInString s)) (drop (snd (DecodeRuneInString s)) s)
             f truth)"
  by pat_completeness auto
termination
proof (relation "measure (\<lambda>(i, s, f, truth). length s)")
  show "wf (measure (\<lambda>(i :: nat, s :: string, f :: nat \<Rightarrow> bool, truth :: bool). length s))"
    by simp
next
  fix i :: nat and s :: string and f :: "nat \<Rightarrow> bool" and truth :: bool
  assume "s \<noteq> []"
  then show "((i + snd (DecodeRuneInString s), drop (snd (DecodeRuneInString s)) s, f, truth),
              i, s, f, truth) \<in> measure (\<lambda>(i, s, f, truth). length s)"
    using DecodeRuneInString_width [of s] by (cases s) auto
qed

declare indexFunc.simps [simp del]

text \<open>\<open>lastIndexFunc\<close>: the loop \<open>for i := len(s); i > 0;\<close>; the argument is the
  prefix \<open>s[0:i]\<close> still to be scanned, so that \<open>i\<close> is its length.\<close>

function lastIndexFunc :: "string \<Rightarrow> (nat \<Rightarrow> bool) \<Rightarrow> bool \<Rightarrow> nat option" where
  "lastIndexFunc s f truth =
     (if length s > 0 then
        let i = length s - snd (DecodeLastRuneInString s)
        in if f (fst (DecodeLastRuneInString s)) = truth then Some i
           else lastIndexFunc (take i s) f truth
      else None)"
  by pat_completeness auto
termination
proof (relation "measure (\<lambda>(s, f, truth). length s)")
  show "wf (measure (\<lambda>(s :: string, f :: nat \<Rightarrow> bool, truth :: bool). length s))"
    by simp
next
  fix s :: string and f :: "nat \<Rightarrow> bool" and truth :: bool and i :: nat
  assume "0 < length s" and "i = length s - snd (DecodeLastRuneInString s)"
  then show "((take i s, f, truth), s, f, truth) \<in> measure (\<lambda>(s, f, truth). length s)"
    using DecodeLastRuneInString_width [of s] by auto
qed

declare lastIndexFunc.simps [simp del]

definition TrimLeftFunc :: "string \<Rightarrow> (nat \<Rightarrow> bool) \<Rightarrow> string" where
  "TrimLeftFunc s f = (case indexFunc 0 s f False of None \<Rightarrow> [] | Some i \<Rightarrow> drop i s)"

definition TrimRightFunc :: "string \<Rightarrow> (nat \<Rightarrow> bool) \<Rightarrow> string" where
  "TrimRightFunc s f =
     (case lastIndexFunc s f False of
        None \<Rightarrow> take 0 s
      | Some i \<Rightarrow>
          if byte (s ! i) \<ge> 0x80 then take (i + snd (DecodeRuneInString (drop i s))) s
          else take (i + 1) s)"

definition TrimFunc :: "string \<Rightarrow> (nat \<Rightarrow> bool) \<Rightarrow> string" where
  "TrimFunc s f = TrimRightFunc (TrimLeftFunc s f) f"

text \<open>\<open>strings.TrimSpace\<close>: the two ASCII scans, each falling back to the Unicode-aware
  trimming at the first byte that is not ASCII.\<close>

fun trimSpaceStop :: "string \<Rightarrow> string" where
  "trimSpaceStop s =
     (case rev s of
        [] \<Rightarrow> s
      | c # _ \<Rightarrow>
          if byte c \<ge> 0x80 then TrimRightFunc s IsSpace
          else if \<not> asciiSpace (byte c) then s
          else trimSpaceStop (butlast s))"

fun TrimSpace :: "string \<Rightarrow> string" where
  "TrimSpace [] = []"
| "TrimSpace (c # s) =
     (if byte c \<ge> 0x80 then TrimFunc (c # s) IsSpace
      else if \<not> asciiSpace (byte c) then trimSpaceStop (c # s)
      else TrimSpace s)"

subsection \<open>encoding/base64\<close>

definition encodeStd :: string where
  "encodeStd = ''ABCDEFGHIJKLMNOPQRSTUVWXYZabcdefghijklmnopqrstuvwxyz0123456789+/''"

definition EncodedLen :: "nat \<Rightarrow> nat" where
  "EncodedLen n = (n + 2) div 3 * 4"

definition DecodedLen :: "nat \<Rightarrow> nat" where
  "DecodedLen n = n div 4 * 3"

text \<open>\<open>base64.StdEncoding.Encode\<close>: three source bytes become four characters of the
  alphabet; a remainder of one or two bytes is padded with \<open>=\<close>.\<close>

fun StdEncoding_Encode :: "string \<Rightarrow> string" where
  "StdEncoding_Encode (a # b # c # src) =
     (let val = byte a * 65536 + byte b * 256 + byte c in
      [encodeStd ! (val div 262144 mod 64), encodeStd ! (val div 4096 mod 64),
       encodeStd ! (val div 64 mod 64), encodeStd ! (val mod 64)] @ StdEncoding_Encode src)"
| "StdEncoding_Encode [a, b] =
     (let val = byte a * 65536 + byte b * 256 in
      [encodeStd ! (val div 262144 mod 64), encodeStd ! (val div 4096 mod 64),
       encodeStd ! (val div 64 mod 64), CHR ''=''])"
| "StdEncoding_Encode [a] =
     (let val = byte a * 65536 in
      [encodeStd ! (val div 262144 mod 64), encodeStd ! (val div 4096 mod 64),
       CHR ''='', CHR ''=''])"
| "StdEncoding_Encode [] = []"

subsection \<open>mime (encodedword.go)\<close>

text \<open>A \<open>WordEncoder\<close> is a byte; \<open>BEncoding = WordEncoder('b')\<close>.\<close>

definition BEncoding :: char where
  "BEncoding = CHR ''b''"

definition maxEncodedWordLen :: nat where
  "maxEncodedWordLen = 75"

definition maxContentLen :: nat where
  "maxContentLen = maxEncodedWordLen - length ''=?UTF-8?q?'' - length ''?=''"

definition maxBase64Len :: nat where
  "maxBase64Len = DecodedLen maxContentLen"

text \<open>\<open>needsEncoding\<close>: the loop \<open>for _, b := range s\<close> visits the runes of \<open>s\<close> and
  returns at the first one that is neither printable ASCII nor a tab.\<close>

function needsEncoding :: "string \<Rightarrow> bool" where
  "needsEncoding s =
     (if s = [] then False
      else
        let b = fst (DecodeRuneInString s) in
        if (b < 0x20 \<or> b > 0x7E) \<and> b \<noteq> 0x09 then True
        else needsEncoding (drop (snd (DecodeRuneInString s)) s))"
  by pat_completeness auto
termination
proof (relation "measure length")
  show "wf (measure length)" by simp
next
  fix s :: string
  assume "s \<noteq> []"
  then show "(drop (snd (DecodeRuneInString s)) s, s) \<in> measure length"
    using DecodeRuneInString_width [of s] by (cases s) auto
qed

declare needsEncoding.simps [simp del]

definition asciiUpper :: "char \<Rightarrow> char" where
  "asciiUpper c = (if 0x61 \<le> byte c \<and> byte c \<le> 0x7A then char_of (byte c - 0x20) else c)"

text \<open>\<open>isUTF8 charset = strings.EqualFold(charset, "UTF-8")\<close>; none of the letters of
  \<open>UTF-8\<close> folds to a character outside ASCII, so the comparison is the ASCII one.\<close>

definition isUTF8 :: "string \<Rightarrow> bool" where
  "isUTF8 charset = (map asciiUpper charset = ''UTF-8'')"

definition openWord :: "char \<Rightarrow> string \<Rightarrow> string \<Rightarrow> string" where
  "openWord e buf charset = buf @ ''=?'' @ charset @ ''?'' @ [e] @ ''?''"

definition closeWord :: "string \<Rightarrow> string" where
  "closeWord buf = buf @ ''?=''"

definition splitWord :: "char \<Rightarrow> string \<Rightarrow> string \<Rightarrow> string" where
  "splitWord e buf charset = openWord e (closeWord buf @ '' '') charset"

text \<open>
  The loop of \<open>bEncode\<close>, with the source's variables \<open>i\<close>, \<open>last\<close> (here \<open>last_i\<close>) and \<open>currentLen\<close>.
  Writing a piece to the base64 stream encoder and closing it appends the standard
  encoding of that piece to the buffer (\<open>Close\<close> flushes the pending bytes with their
  padding and leaves the encoder empty).
\<close>

function bEncode_loop :: "char \<Rightarrow> string \<Rightarrow> string \<Rightarrow> nat \<Rightarrow> nat \<Rightarrow> nat \<Rightarrow> string \<Rightarrow> string" where
  "bEncode_loop e charset s i last_i currentLen buf =
     (if i < length s then
        let runeLen = snd (DecodeRuneInString (drop i s)) in
        if currentLen + runeLen \<le> maxBase64Len
        then bEncode_loop e charset s (i + runeLen) last_i (currentLen + runeLen) buf
        else bEncode_loop e charset s (i + runeLen) i runeLen
               (splitWord e (buf @ StdEncoding_Encode (take (i - last_i) (drop last_i s))) charset)
      else buf @ StdEncoding_Encode (drop last_i s))"
  by pat_completeness auto
termination
proof (relation "measure (\<lambda>(e, charset, s, i, last_i, currentLen, buf). length s - i)")
  show "wf (measure (\<lambda>(e, charset, s, i, last_i, currentLen, buf). length s - i))" by simp
next
  fix e :: char and charset s buf :: string and i last_i currentLen runeLen :: nat
  assume lt: "i < length s" and r: "runeLen = snd (DecodeRuneInString (drop i s))"
  from lt have "drop i s \<noteq> []" by simp
  from DecodeRuneInString_width [OF this] r have "1 \<le> runeLen" by simp
  with lt show "((e, charset, s, i + runeLen, last_i, currentLen + runeLen, buf),
                 e, charset, s, i, last_i, currentLen, buf)
                \<in> measure (\<lambda>(e, charset, s, i, last_i, currentLen, buf). length s - i)"
    by simp
  from \<open>1 \<le> runeLen\<close> lt
  show "((e, charset, s, i + runeLen, i, runeLen,
          splitWord e (buf @ StdEncoding_Encode (take (i - last_i) (drop last_i s))) charset),
         e, charset, s, i, last_i, currentLen, buf)
        \<in> measure (\<lambda>(e, charset, s, i, last_i, currentLen, buf). length s - i)"
    by simp
qed

declare bEncode_loop.simps [simp del]

definition bEncode :: "char \<Rightarrow> string \<Rightarrow> string \<Rightarrow> string \<Rightarrow> string" where
  "bEncode e buf charset s =
     (if \<not> isUTF8 charset \<or> EncodedLen (length s) \<le> maxContentLen
      then buf @ StdEncoding_Encode s
      else bEncode_loop e charset s 0 0 0 buf)"

text \<open>\<open>encodeWord\<close> and \<open>Encode\<close> for the receiver \<open>BEncoding\<close>, the only encoder the
  program uses.\<close>

definition encodeWord :: "string \<Rightarrow> string \<Rightarrow> string" where
  "encodeWord charset s = closeWord (bEncode BEncoding (openWord BEncoding [] charset) charset s)"

definition BEncoding_Encode :: "string \<Rightarrow> string \<Rightarrow> string" where
  "BEncoding_Encode charset s = (if \<not> needsEncoding s then s else encodeWord charset s)"

subsection \<open>mime: the decoder of encoded-words\<close>

text \<open>
  Modelled from the spec: the round-trip property of the specification speaks of a
  standard MIME-header decoder, which is no part of the repository. It is taken to be
  the decoder of the package that provides the encoder: \<open>mime.WordDecoder.DecodeHeader\<close>
  of the Go standard library, for the zero \<open>WordDecoder\<close>, with the functions it calls
  (\<open>base64.StdEncoding.DecodeString\<close>, the Q decoding, \<open>convert\<close>). An error is \<open>None\<close>.
\<close>

text \<open>\<open>decodeMap\<close> of \<open>base64.StdEncoding\<close>: the position of a character in the alphabet,
  \<open>0xFF\<close> for a character outside it.\<close>

fun positionIn :: "char \<Rightarrow> string \<Rightarrow> nat option" where
  "positionIn c [] = None"
| "positionIn c (x # xs) = (if c = x then Some 0 else map_option Suc (positionIn c xs))"

definition decodeMap :: "char \<Rightarrow> nat" where
  "decodeMap c = (case positionIn c encodeStd of None \<Rightarrow> 0xFF | Some k \<Rightarrow> k)"

definition CR :: char where
  "CR = CHR 0x0D"

text \<open>The bytes of a quantum of \<open>dlen\<close> six-bit values \<open>dbuf\<close> (the end of
  \<open>decodeQuantum\<close>; \<open>StdEncoding\<close> is not strict).\<close>

definition quantumBytes :: "nat list \<Rightarrow> string" where
  "quantumBytes dbuf =
     (let dlen = length dbuf;
          d = dbuf @ replicate (4 - dlen) 0;
          val = d ! 0 * 262144 + d ! 1 * 4096 + d ! 2 * 64 + d ! 3
      in take (dlen - 1)
           [char_of (val div 65536 mod 256), char_of (val div 256 mod 256), char_of (val mod 256)])"

fun skipNewlines :: "string \<Rightarrow> string" where
  "skipNewlines [] = []"
| "skipNewlines (c # cs) = (if c = LF \<or> c = CR then skipNewlines cs else c # cs)"

text \<open>
  \<open>base64.StdEncoding.DecodeString\<close>, \<open>None\<close> for a \<open>CorruptInputError\<close>: the source is
  read in quanta of four characters of the alphabet, as \<open>decodeQuantum\<close> does; line
  breaks are skipped, and padding ends the input. \<open>dbuf\<close> holds the values of the quantum
  read so far.
\<close>

fun StdEncoding_Decode :: "nat list \<Rightarrow> string \<Rightarrow> string option" where
  "StdEncoding_Decode dbuf [] = (if dbuf = [] then Some [] else None)"
| "StdEncoding_Decode dbuf (c # src) =
     (if decodeMap c \<noteq> 0xFF then
        (if length dbuf = 3
         then map_option (\<lambda>rest. quantumBytes (dbuf @ [decodeMap c]) @ rest)
                (StdEncoding_Decode [] src)
         else StdEncoding_Decode (dbuf @ [decodeMap c]) src)
      else if c = LF \<or> c = CR then StdEncoding_Decode dbuf src
      else if c \<noteq> CHR ''='' then None
      else if length dbuf < 2 then None
      else if length dbuf = 2 then
        (case skipNewlines src of
           [] \<Rightarrow> None
         | c' # src' \<Rightarrow>
             if c' \<noteq> CHR ''='' then None
             else if skipNewlines src' \<noteq> [] then None
             else Some (quantumBytes dbuf))
      else if skipNewlines src \<noteq> [] then None
      else Some (quantumBytes dbuf))"

definition DecodeString :: "string \<Rightarrow> string option" where
  "DecodeString s = StdEncoding_Decode [] s"

text \<open>\<open>fromHex\<close> and \<open>readHexByte\<close> of the Q encoding.\<close>

definition fromHex :: "char \<Rightarrow> nat option" where
  "fromHex b =
     (if 0x30 \<le> byte b \<and> byte b \<le> 0x39 then Some (byte b - 0x30)
      else if 0x41 \<le> byte b \<and> byte b \<le> 0x46 then Some (byte b - 0x41 + 10)
      else if 0x61 \<le> byte b \<and> byte b \<le> 0x66 then Some (byte b - 0x61 + 10)
      else None)"

definition readHexByte :: "char \<Rightarrow> char \<Rightarrow> char option" where
  "readHexByte a b =
     (case fromHex a of
        None \<Rightarrow> None
      | Some hb \<Rightarrow> (case fromHex b of None \<Rightarrow> None | Some lb \<Rightarrow> Some (char_of (hb * 16 + lb))))"

fun qDecode :: "string \<Rightarrow> string option" where
  "qDecode [] = Some []"
| "qDecode (c # s) =
     (if c = CHR ''_'' then map_option ((#) CHR '' '') (qDecode s)
      else if c = CHR ''='' then
        (case s of
           a # b # s' \<Rightarrow>
             (case readHexByte a b of
                None \<Rightarrow> None
              | Some x \<Rightarrow> map_option ((#) x) (qDecode s'))
         | _ \<Rightarrow> None)
      else if (byte c \<le> 0x7E \<and> byte c \<ge> 0x20) \<or> c = LF \<or> c = CR \<or> c = CHR 0x09
      then map_option ((#) c) (qDecode s)
      else None)"

definition decode :: "char \<Rightarrow> string \<Rightarrow> string option" where
  "decode encoding text =
     (if encoding = CHR ''B'' \<or> encoding = CHR ''b'' then DecodeString text
      else if encoding = CHR ''Q'' \<or> encoding = CHR ''q'' then qDecode text
      else None)"

text \<open>\<open>hasNonWhitespace\<close>: the loop over the runes of \<open>s\<close>.\<close>

function hasNonWhitespace :: "string \<Rightarrow> bool" where
  "hasNonWhitespace s =
     (if s = [] then False
      else
        let b = fst (DecodeRuneInString s) in
        if b = 0x20 \<or> b = 0x09 \<or> b = 0x0A \<or> b = 0x0D
        then hasNonWhitespace (drop (snd (DecodeRuneInString s)) s)
        else True)"
  by pat_completeness auto
termination
proof (relation "measure length")
  show "wf (measure length)" by simp
next
  fix s :: string
  assume "s \<noteq> []"
  then show "(drop (snd (DecodeRuneInString s)) s, s) \<in> measure length"
    using DecodeRuneInString_width [of s] by (cases s) auto
qed

declare hasNonWhitespace.simps [simp del]

text \<open>
  \<open>strings.EqualFold s t\<close> for a string \<open>s\<close> of ASCII characters, as \<open>convert\<close> calls
  it: a rune of \<open>t\<close> matches an ASCII character when it is that character, its other
  case, or the one character beyond ASCII that folds to it (the long s for \<open>s\<close>, the
  Kelvin sign for \<open>k\<close>).
\<close>

definition foldEq :: "nat \<Rightarrow> nat \<Rightarrow> bool" where
  "foldEq sr tr =
     (tr = sr \<or>
      (let lo = min sr tr; hi = max sr tr in
       if hi < 0x80 then 0x41 \<le> lo \<and> lo \<le> 0x5A \<and> hi = lo + 0x20
       else ((lo = 0x53 \<or> lo = 0x73) \<and> hi = 0x17F) \<or> ((lo = 0x4B \<or> lo = 0x6B) \<and> hi = 0x212A)))"

fun EqualFold :: "string \<Rightarrow> string \<Rightarrow> bool" where
  "EqualFold [] t = (t = [])"
| "EqualFold (c # s) t =
     (if t = [] then False
      else foldEq (byte c) (fst (DecodeRuneInString t))
           \<and> EqualFold s (drop (snd (DecodeRuneInString t)) t))"

text \<open>\<open>WriteRune\<close> for a rune below \<open>0x100\<close>, and the replacement character.\<close>

definition WriteRune_latin1 :: "nat \<Rightarrow> string" where
  "WriteRune_latin1 r =
     (if r < 0x80 then [char_of r] else [char_of (0xC0 + r div 64), char_of (0x80 + r mod 64)])"

definition ReplacementChar :: string where
  "ReplacementChar = [CHR 0xEF, CHR 0xBF, CHR 0xBD]"

text \<open>\<open>convert\<close> for a decoder without \<open>CharsetReader\<close> (the zero \<open>WordDecoder\<close>);
  \<open>None\<close> is the error for a charset that is not handled.\<close>

definition convert :: "string \<Rightarrow> string \<Rightarrow> string \<Rightarrow> string option" where
  "convert buf charset content =
     (if EqualFold ''utf-8'' charset then Some (buf @ content)
      else if EqualFold ''iso-8859-1'' charset
      then Some (buf @ concat (map (\<lambda>c. WriteRune_latin1 (byte c)) content))
      else if EqualFold ''us-ascii'' charset
      then Some (buf @ concat (map (\<lambda>c. if byte c \<ge> 0x80 then ReplacementChar else [c]) content))
      else None)"

text \<open>The loop of \<open>DecodeHeader\<close>; the rest of the header is written to the buffer when
  the loop is left.\<close>

function DecodeHeader_loop :: "string \<Rightarrow> bool \<Rightarrow> string \<Rightarrow> string option" where
  "DecodeHeader_loop header betweenWords buf =
     (case Index header ''=?'' of
        None \<Rightarrow> Some (buf @ header)
      | Some start \<Rightarrow>
          let cur = start + length ''=?'' in
          case Index (drop cur header) ''?'' of
            None \<Rightarrow> Some (buf @ header)
          | Some i \<Rightarrow>
              let charset = take i (drop cur header);
                  cur = cur + i + length ''?''
              in
              if length header < cur + length ''Q??='' then Some (buf @ header)
              else
                let encoding = header ! cur;
                    cur = cur + 1
                in
                if header ! cur \<noteq> CHR ''?'' then Some (buf @ header)
                else
                  let cur = cur + 1 in
                  case Index (drop cur header) ''?='' of
                    None \<Rightarrow> Some (buf @ header)
                  | Some j \<Rightarrow>
                      let text = take j (drop cur header);
                          end_i = cur + j + length ''?=''
                      in
                      case decode encoding text of
                        None \<Rightarrow>
                          DecodeHeader_loop (drop (start + 2) header) False
                            (buf @ take (start + 2) header)
                      | Some content \<Rightarrow>
                          let buf = (if start > 0
                                        \<and> (\<not> betweenWords \<or> hasNonWhitespace (take start header))
                                     then buf @ take start header else buf)
                          in
                          case convert buf charset content of
                            None \<Rightarrow> None
                          | Some buf \<Rightarrow> DecodeHeader_loop (drop end_i header) True buf)"
  by pat_completeness auto
termination
proof (relation "measure (\<lambda>(header, betweenWords, buf). length header)")
  show "wf (measure (\<lambda>(header :: string, betweenWords :: bool, buf :: string). length header))"
    by simp
next
  fix header :: string and betweenWords :: bool and buf :: string and start :: nat
  assume "Index header ''=?'' = Some start"
  then have "header \<noteq> []" by (rule Index_Some_nonempty) simp
  then show "((drop (start + 2) header, False, buf @ take (start + 2) header),
              header, betweenWords, buf)
             \<in> measure (\<lambda>(header, betweenWords, buf). length header)"
    by simp
next
  fix header :: string and betweenWords :: bool and buf buf' :: string
    and start cur end_i j :: nat
  assume "Index header ''=?'' = Some start" and "end_i = cur + j + length ''?=''"
  then have "header \<noteq> []" and "0 < end_i"
    by (auto dest: Index_Some_nonempty)
  then show "((drop end_i header, True, buf'), header, betweenWords, buf)
             \<in> measure (\<lambda>(header, betweenWords, buf). length header)"
    by simp
qed

declare DecodeHeader_loop.simps [simp del]

definition DecodeHeader :: "string \<Rightarrow> string option" where
  "DecodeHeader header =
     (case Index header ''=?'' of
        None \<Rightarrow> Some header
      | Some i \<Rightarrow> DecodeHeader_loop (drop i header) False (take i header))"

section \<open>quickmail.go\<close>

subsection \<open>encodeMIMESubject\<close>

text \<open>The loop over \<open>parts[:len(parts)-1]\<close>, with its index \<open>i\<close> and the accumulator
  \<open>result\<close>.\<close>

fun foldParts :: "nat \<Rightarrow> string list \<Rightarrow> string \<Rightarrow> string" where
  "foldParts i [] result = result"
| "foldParts i (part # rest) result =
     foldParts (Suc i) rest
       ((if i > 0 then result @ [] else result) @ part @ ''?='' @ [LF])"

definition encodeMIMESubject :: "string \<Rightarrow> string" where
  "encodeMIMESubject input =
     (if input = [] then []
      else
        let encoded = BEncoding_Encode ''UTF-8'' input;
            parts = Split encoded ''?=''
        in if length parts \<le> 1 then encoded
           else
             let result = foldParts 0 (butlast parts) [];
                 result = result @ last parts
             in TrimSuffix result [LF])"

text \<open>The folding as the specification words it: split on \<open>?=\<close>; a single segment
  leaves the encoded string as it is; otherwise every segment but the last gets \<open>?=\<close>
  and a newline back, the last segment follows, and one trailing newline is removed.\<close>

definition reference_fold :: "string \<Rightarrow> string" where
  "reference_fold encoded =
     (let segments = Split encoded ''?='' in
      if length segments = 1 then encoded
      else
        let assembled = concat (map (\<lambda>seg. seg @ ''?='' @ [LF]) (butlast segments))
                          @ last segments
        in if assembled \<noteq> [] \<and> last assembled = LF then butlast assembled else assembled)"

subsection \<open>Errors, the HTTP client and the outside world\<close>

text \<open>A Go \<open>error\<close> is either a plain message or a message wrapping another error (the
  verb \<open>%w\<close> of \<open>fmt.Errorf\<close>); \<open>Error\<close> is its text.\<close>

datatype error = errorString string | wrapError string error

fun Error :: "error \<Rightarrow> string" where
  "Error (errorString s) = s"
| "Error (wrapError msg err) = msg"

text \<open>\<open>fmt.Errorf(prefix + "%w", err)\<close>.\<close>

definition Errorf_w :: "string \<Rightarrow> error \<Rightarrow> error" where
  "Errorf_w prefix err = wrapError (prefix @ Error err) err"

record Config =
  OnionAddress :: string
  Port :: string

text \<open>Of the fields of \<open>QuickMail\<close>, \<open>sendMail\<close> reads \<open>config\<close> (a pointer, \<open>None\<close> for
  nil) and the text of \<open>textArea\<close>.\<close>

record QuickMail =
  config :: "Config option"
  textArea_Text :: string

text \<open>A \<open>proxy.Dialer\<close>: \<open>proxy.Direct\<close>, or the dialer that \<open>proxy.SOCKS5\<close> builds from
  a network, the proxy's address, the authentication (\<open>None\<close> for nil) and the dialer
  that reaches the proxy.\<close>

datatype Dialer = Direct | SOCKS5_Dialer string string "(string \<times> string) option" Dialer

record Transport =
  Dial :: Dialer

record Client =
  Transport :: Transport
  Timeout :: int

record Request =
  Method :: string
  URL :: string
  RequestBody :: string
  Header :: "(string \<times> string) list"

text \<open>A response as \<open>uploadMessage\<close> sees it; \<open>Body\<close> is what \<open>io.ReadAll\<close> returns
  (its error is discarded by the program).\<close>

record Response =
  StatusCode :: int
  Status :: string
  Body :: string

text \<open>
  What lies outside the program: whether \<open>proxy.SOCKS5\<close> and \<open>http.NewRequest\<close> fail
  on given arguments, what \<open>client.Do\<close> returns for a client and a request, and the
  time that \<open>time.Since(startTime)\<close> measures.
\<close>

record world =
  SOCKS5_failure :: "string \<Rightarrow> string \<Rightarrow> error option"
  NewRequest_failure :: "string \<Rightarrow> string \<Rightarrow> error option"
  Do :: "Client \<Rightarrow> Request \<Rightarrow> error + Response"
  Since :: int

definition proxy_SOCKS5 ::
  "world \<Rightarrow> string \<Rightarrow> string \<Rightarrow> (string \<times> string) option \<Rightarrow> Dialer \<Rightarrow> error + Dialer" where
  "proxy_SOCKS5 w network address auth forward =
     (case SOCKS5_failure w network address of
        Some err \<Rightarrow> Inl err
      | None \<Rightarrow> Inr (SOCKS5_Dialer network address auth forward))"

definition http_NewRequest :: "world \<Rightarrow> string \<Rightarrow> string \<Rightarrow> string \<Rightarrow> error + Request" where
  "http_NewRequest w method url body =
     (case NewRequest_failure w method url of
        Some err \<Rightarrow> Inl err
      | None \<Rightarrow> Inr \<lparr>Method = method, URL = url, RequestBody = body, Header = []\<rparr>)"

definition Header_Set :: "Request \<Rightarrow> string \<Rightarrow> string \<Rightarrow> Request" where
  "Header_Set request key v =
     request\<lparr>Header := (key, v) # filter (\<lambda>kv. fst kv \<noteq> key) (Header request)\<rparr>"

definition Second :: int where
  "Second = 1000000000"

definition StatusOK :: int where
  "StatusOK = 200"

text \<open>
  The effects of the program, in the order they happen: an HTTP request sent by a
  client, the line printed after a successful upload (with the elapsed time), a dialog
  shown to the user (title and message), and a goroutine started with \<open>go\<close>, which
  carries the effects of its body.
\<close>

datatype event =
    HTTPDo Client Request
  | PrintSent int
  | ShowInformation string string
  | Go "event list"

subsection \<open>uploadMessage\<close>

definition uploadMessage :: "world \<Rightarrow> string \<Rightarrow> string \<Rightarrow> error option \<times> event list" where
  "uploadMessage w serverURL message =
     (let data = message in
      case proxy_SOCKS5 w ''tcp'' ''127.0.0.1:9050'' None Direct of
        Inl err \<Rightarrow> (Some (Errorf_w (''can'' @ [CHR 0x27] @ ''t connect to Tor proxy: '') err), [])
      | Inr dialer \<Rightarrow>
          let httpTransport = \<lparr>Dial = dialer\<rparr>;
              client = \<lparr>Transport = httpTransport, Timeout = 30 * Second\<rparr>
          in
          case http_NewRequest w ''POST'' serverURL data of
            Inl err \<Rightarrow> (Some (Errorf_w ''failed to create request: '' err), [])
          | Inr request \<Rightarrow>
              let request = Header_Set request ''Content-Type'' ''application/octet-stream'' in
              case Do w client request of
                Inl err \<Rightarrow>
                  (Some (Errorf_w ''failed to send request: '' err), [HTTPDo client request])
              | Inr response \<Rightarrow>
                  let responseBody = Body response in
                  if StatusCode response \<noteq> StatusOK
                  then (Some (errorString (''unexpected status: '' @ Status response
                                             @ '', body: '' @ responseBody)),
                        [HTTPDo client request])
                  else (None, [HTTPDo client request, PrintSent (Since w)]))"

subsection \<open>sendMail\<close>

definition showError :: "string \<Rightarrow> event" where
  "showError message = ShowInformation ''Error'' message"

definition showSuccess :: "string \<Rightarrow> event" where
  "showSuccess message = ShowInformation ''Success'' message"

text \<open>The body of the goroutine that \<open>sendMail\<close> starts.\<close>

definition sendMail_go :: "world \<Rightarrow> string \<Rightarrow> string \<Rightarrow> event list" where
  "sendMail_go w serverURL message =
     (let (err, effects) = uploadMessage w serverURL message in
      case err of
        Some e \<Rightarrow> effects @ [showError (''Send error: '' @ Error e)]
      | None \<Rightarrow> effects @ [showSuccess ''Message sent successfully!''])"

text \<open>Lines 103 to 111: the address of the server and the URL of the upload.\<close>

definition serverURL :: "Config \<Rightarrow> string" where
  "serverURL cfg =
     (let serverAddress = OnionAddress cfg;
          serverAddress = (if Port cfg \<noteq> [] then serverAddress @ '':'' @ Port cfg
                           else serverAddress);
          serverAddress = (if \<not> HasPrefix serverAddress ''http://''
                              \<and> \<not> HasPrefix serverAddress ''https://''
                           then ''http://'' @ serverAddress else serverAddress)
      in serverAddress @ ''/upload'')"

definition sendMail :: "world \<Rightarrow> QuickMail \<Rightarrow> event list" where
  "sendMail w q =
     (case config q of
        None \<Rightarrow> [showError ''Configuration not loaded'']
      | Some cfg \<Rightarrow>
          let message = textArea_Text q in
          if TrimSpace message = [] then [showError ''Message is empty'']
          else [Go (sendMail_go w (serverURL cfg) message)])"

text \<open>The notifications among the effects: the dialogs shown to the user.\<close>

definition is_notification :: "event \<Rightarrow> bool" where
  "is_notification ev = (case ev of ShowInformation title message \<Rightarrow> True | _ \<Rightarrow> False)"

text \<open>Two worlds to run the program in: one where the proxy dialer cannot be built, one
  where the server answers every request with a given status and body.\<close>

definition refusing_world :: world where
  "refusing_world =
     \<lparr>SOCKS5_failure = (\<lambda>network address. Some (errorString ''no proxy'')),
      NewRequest_failure = (\<lambda>method url. None),
      Do = (\<lambda>client request. Inl (errorString ''unreachable'')),
      Since = 0\<rparr>"

definition answering_world :: "int \<Rightarrow> string \<Rightarrow> string \<Rightarrow> world" where
  "answering_world code status body =
     \<lparr>SOCKS5_failure = (\<lambda>network address. None),
      NewRequest_failure = (\<lambda>method url. None),
      Do = (\<lambda>client request. Inr \<lparr>StatusCode = code, Status = status, Body = body\<rparr>),
      Since = 1500000000\<rparr>"

section \<open>Notions used in the proofs\<close>

text \<open>The characters that \<open>base64.StdEncoding\<close> writes.\<close>

definition b64char :: "char \<Rightarrow> bool" where
  "b64char c = (c \<in> set encodeStd \<or> c = CHR ''='')"

text \<open>The text between the opening marker and \<open>?=\<close>, for a list of pieces.\<close>

fun encodedWords :: "char \<Rightarrow> string \<Rightarrow> string list \<Rightarrow> string" where
  "encodedWords e charset [] = []"
| "encodedWords e charset [w] = StdEncoding_Encode w"
| "encodedWords e charset (w # ws) =
     StdEncoding_Encode w @ ''?= '' @ openWord e [] charset @ encodedWords e charset ws"

text \<open>The output for a subject that is encoded: one encoded-word per piece, each on a
  line of its own, the lines after the first starting with a space.\<close>

fun foldedWords :: "string \<Rightarrow> string list \<Rightarrow> string" where
  "foldedWords p [] = []"
| "foldedWords p [w] = p @ StdEncoding_Encode w @ ''?=''"
| "foldedWords p (w # ws) =
     p @ StdEncoding_Encode w @ ''?='' @ [LF] @ foldedWords ('' =?UTF-8?b?'') ws"

text \<open>A string in which no \<open>?=\<close> starts, even when \<open>?=\<close> follows it.\<close>

definition clean :: "string \<Rightarrow> bool" where
  "clean x = (Index (x @ ''?'') ''?='' = None)"

text \<open>Joining the parts as the loop of \<open>encodeMIMESubject\<close> does.\<close>

definition joinParts :: "string list \<Rightarrow> string" where
  "joinParts parts = foldParts 0 (butlast parts) [] @ last parts"

text \<open>On bytes: a subject needs encoding when one of its bytes is neither printable ASCII
  nor a tab.\<close>

definition plainByte :: "char \<Rightarrow> bool" where
  "plainByte c = ((0x20 \<le> byte c \<and> byte c \<le> 0x7E) \<or> byte c = 0x09)"

text \<open>Lines 72 to 87 of \<open>encodeMIMESubject\<close>, as a function of the encoded string.\<close>

definition foldEncoded :: "string \<Rightarrow> string" where
  "foldEncoded encoded =
     (let parts = Split encoded ''?='' in
      if length parts \<le> 1 then encoded
      else TrimSuffix (foldParts 0 (butlast parts) [] @ last parts) [LF])"

text \<open>
  A well-formed folded header value, as the encoder writes it. An encoded-word is
  \<open>=?UTF-8?b?\<close>, characters of the base64 alphabet (with padding), and the closing
  marker \<open>?=\<close>. The lines of the value are the pieces between its line breaks: the
  first line is one encoded-word, every further line is a space followed by one
  encoded-word.
\<close>

definition encodedWord :: "string \<Rightarrow> bool" where
  "encodedWord x =
     (HasPrefix x ''=?UTF-8?b?'' \<and> HasSuffix x ''?='' \<and> 12 \<le> length x
      \<and> list_all b64char (take (length x - 12) (drop 10 x)))"

definition continuationLine :: "string \<Rightarrow> bool" where
  "continuationLine l = (case l of [] \<Rightarrow> False | c # w \<Rightarrow> c = CHR '' '' \<and> encodedWord w)"

definition foldedHeaderValue :: "string \<Rightarrow> bool" where
  "foldedHeaderValue v =
     (case Split v [LF] of
        [] \<Rightarrow> False
      | l # ls \<Rightarrow> encodedWord l \<and> list_all continuationLine ls)"

section \<open>Properties\<close>

subsection \<open>Auxiliary facts\<close>

subsubsection \<open>Splitting, joining and trimming\<close>

lemma Split_nonempty: "sep \<noteq> [] \<Longrightarrow> Split s sep \<noteq> []"
  by (subst Split.simps) (simp split: option.splits)

lemma foldParts_concat:
  "foldParts i ps acc = acc @ concat (map (\<lambda>seg. seg @ ''?='' @ [LF]) ps)"
  by (induction ps arbitrary: i acc) simp_all

lemma TrimSuffix_LF:
  "TrimSuffix s [LF] = (if s \<noteq> [] \<and> last s = LF then butlast s else s)"
proof (cases s rule: rev_cases)
  case Nil
  then show ?thesis by (simp add: TrimSuffix_def HasSuffix_def)
next
  case (snoc ys y)
  then show ?thesis by (auto simp: TrimSuffix_def HasSuffix_def)
qed

lemma TrimSpace_asciiSpace: "\<forall>c \<in> set s. asciiSpace (byte c) \<Longrightarrow> TrimSpace s = []"
  by (induction s) (auto simp: asciiSpace_def)

subsubsection \<open>What the base64 encoder writes\<close>

lemma encodeStd_length: "length encodeStd = 64"
  by (simp add: encodeStd_def)

lemma encodeStd_nth: "k < 64 \<Longrightarrow> encodeStd ! k \<in> set encodeStd"
  using nth_mem [of k encodeStd] by (simp add: encodeStd_length)

lemma encodeStd_chars:
  "c \<in> set encodeStd \<Longrightarrow> c \<noteq> CHR ''?'' \<and> c \<noteq> CHR ''='' \<and> c \<noteq> LF \<and> c \<noteq> CHR '' ''"
  by (auto simp: encodeStd_def LF_def)

lemma StdEncoding_Encode_chars: "c \<in> set (StdEncoding_Encode src) \<Longrightarrow> b64char c"
  by (induction src rule: StdEncoding_Encode.induct)
     (auto simp: Let_def b64char_def encodeStd_nth)

lemma b64char_not:
  "b64char c \<Longrightarrow> c \<noteq> CHR ''?'' \<and> c \<noteq> LF \<and> c \<noteq> CHR '' ''"
  using encodeStd_chars [of c] by (auto simp: b64char_def LF_def)

lemma StdEncoding_Encode_hd:
  "StdEncoding_Encode src = c # cs \<Longrightarrow> c \<noteq> CHR ''=''"
  using encodeStd_chars encodeStd_nth
  by (cases src rule: StdEncoding_Encode.cases) (auto simp: Let_def)

lemma StdEncoding_Encode_length: "length (StdEncoding_Encode src) = EncodedLen (length src)"
proof (induction src rule: StdEncoding_Encode.induct)
  case (1 a b c src)
  have "(length src + 3 + 2) div 3 = Suc ((length src + 2) div 3)" by arith
  with 1 show ?case by (simp add: Let_def EncodedLen_def add.commute)
qed (simp_all add: Let_def EncodedLen_def)

lemma maxBase64Len_eq: "maxBase64Len = 45"
  by (simp add: maxBase64Len_def maxContentLen_def maxEncodedWordLen_def DecodedLen_def)

lemma maxContentLen_eq: "maxContentLen = 63"
  by (simp add: maxContentLen_def maxEncodedWordLen_def)

subsubsection \<open>The pieces that bEncode writes\<close>

lemma bEncode_loop_words:
  assumes "last_i \<le> i" and "i - last_i = currentLen" and "currentLen \<le> maxBase64Len"
  shows "\<exists>ws. ws \<noteq> [] \<and> concat ws = drop last_i s \<and> (\<forall>w \<in> set ws. length w \<le> maxBase64Len)
           \<and> bEncode_loop e charset s i last_i currentLen buf = buf @ encodedWords e charset ws"
  using assms
proof (induction e charset s i last_i currentLen buf rule: bEncode_loop.induct)
  case (1 e charset s i last_i currentLen buf)
  show ?case
  proof (cases "i < length s")
    case False
    then have "bEncode_loop e charset s i last_i currentLen buf
                 = buf @ encodedWords e charset [drop last_i s]"
      by (simp add: bEncode_loop.simps [of e charset s i])
    moreover from False 1(3,4,5) have "length (drop last_i s) \<le> maxBase64Len" by simp
    ultimately show ?thesis by (intro exI [of _ "[drop last_i s]"]) simp
  next
    case True
    define runeLen where "runeLen = snd (DecodeRuneInString (drop i s))"
    from True have "drop i s \<noteq> []" by simp
    from DecodeRuneInString_width [OF this] have rl: "1 \<le> runeLen" "runeLen \<le> 4"
      by (simp_all add: runeLen_def)
    show ?thesis
    proof (cases "currentLen + runeLen \<le> maxBase64Len")
      case fits: True
      have "\<exists>ws. ws \<noteq> [] \<and> concat ws = drop last_i s
               \<and> (\<forall>w \<in> set ws. length w \<le> maxBase64Len)
               \<and> bEncode_loop e charset s (i + runeLen) last_i (currentLen + runeLen) buf
                   = buf @ encodedWords e charset ws"
        using 1(1) [OF True runeLen_def fits] 1(3,4) fits by simp
      moreover have "bEncode_loop e charset s i last_i currentLen buf
                       = bEncode_loop e charset s (i + runeLen) last_i (currentLen + runeLen) buf"
        using True fits by (simp add: bEncode_loop.simps [of e charset s i] runeLen_def Let_def)
      ultimately show ?thesis by simp
    next
      case over: False
      define piece where "piece = take (i - last_i) (drop last_i s)"
      define buf' where "buf' = splitWord e (buf @ StdEncoding_Encode piece) charset"
      have "\<exists>ws. ws \<noteq> [] \<and> concat ws = drop i s
               \<and> (\<forall>w \<in> set ws. length w \<le> maxBase64Len)
               \<and> bEncode_loop e charset s (i + runeLen) i runeLen buf'
                   = buf' @ encodedWords e charset ws"
        using 1(2) [OF True runeLen_def over] rl unfolding buf'_def piece_def
        by (simp add: maxBase64Len_eq)
      then obtain ws where ws: "ws \<noteq> []" "concat ws = drop i s"
          "\<forall>w \<in> set ws. length w \<le> maxBase64Len"
          "bEncode_loop e charset s (i + runeLen) i runeLen buf' = buf' @ encodedWords e charset ws"
        by blast
      have step: "bEncode_loop e charset s i last_i currentLen buf
                    = bEncode_loop e charset s (i + runeLen) i runeLen buf'"
        using True over
        by (simp add: bEncode_loop.simps [of e charset s i] runeLen_def Let_def buf'_def piece_def)
      have cat: "concat (piece # ws) = drop last_i s"
      proof -
        have "drop (i - last_i) (drop last_i s) = drop i s" using 1(3) by simp
        then have "piece @ drop i s = drop last_i s"
          unfolding piece_def by (metis append_take_drop_id)
        then show ?thesis by (simp add: ws(2))
      qed
      have len: "length piece \<le> maxBase64Len"
        using 1(4,5) by (simp add: piece_def)
      have out: "buf' @ encodedWords e charset ws = buf @ encodedWords e charset (piece # ws)"
        using ws(1) by (cases ws) (simp_all add: buf'_def splitWord_def openWord_def closeWord_def)
      show ?thesis
        using cat len ws(3) step ws(4) out
        by (intro exI [of _ "piece # ws"]) simp
    qed
  qed
qed

lemma encodeWord_words:
  "\<exists>ws. ws \<noteq> [] \<and> concat ws = s \<and> (\<forall>w \<in> set ws. length w \<le> maxBase64Len)
        \<and> encodeWord ''UTF-8'' s
            = openWord BEncoding [] ''UTF-8'' @ encodedWords BEncoding ''UTF-8'' ws @ ''?=''"
proof (cases "EncodedLen (length s) \<le> maxContentLen")
  case True
  then have "(length s + 2) div 3 * 4 \<le> 63"
    by (simp add: EncodedLen_def maxContentLen_eq)
  then have "length s \<le> maxBase64Len"
    unfolding maxBase64Len_eq by arith
  moreover have "encodeWord ''UTF-8'' s
            = openWord BEncoding [] ''UTF-8'' @ encodedWords BEncoding ''UTF-8'' [s] @ ''?=''"
    using True by (simp add: encodeWord_def bEncode_def closeWord_def)
  ultimately show ?thesis by (intro exI [of _ "[s]"]) simp
next
  case False
  have utf: "isUTF8 ''UTF-8''" by (simp add: isUTF8_def asciiUpper_def)
  from bEncode_loop_words [of 0 0 0 s BEncoding "''UTF-8''" "openWord BEncoding [] ''UTF-8''"]
  obtain ws where ws: "ws \<noteq> []" "concat ws = s" "\<forall>w \<in> set ws. length w \<le> maxBase64Len"
    "bEncode_loop BEncoding ''UTF-8'' s 0 0 0 (openWord BEncoding [] ''UTF-8'')
       = openWord BEncoding [] ''UTF-8'' @ encodedWords BEncoding ''UTF-8'' ws"
    by auto
  have "encodeWord ''UTF-8'' s
          = openWord BEncoding [] ''UTF-8'' @ encodedWords BEncoding ''UTF-8'' ws @ ''?=''"
    using False utf ws(4) by (simp add: encodeWord_def bEncode_def closeWord_def)
  with ws(1-3) show ?thesis by blast
qed


subsubsection \<open>Splitting the encoded words at their closing markers\<close>

lemma HasPrefix_two: "HasPrefix s [a, b] \<longleftrightarrow> (\<exists>r. s = a # b # r)"
  by (cases s; cases "tl s") (auto simp: HasPrefix_def)

lemma Index_clean:
  "clean x \<Longrightarrow> Index (x @ CHR ''?'' # CHR ''='' # r) ''?='' = Some (length x)"
proof (induction x)
  case Nil
  then show ?case by (simp add: HasPrefix_two)
next
  case (Cons c cs)
  from Cons.prems have np: "\<not> HasPrefix (c # cs @ ''?'') ''?=''" and cl: "clean cs"
    by (auto simp: clean_def split: if_splits)
  from np have "\<not> HasPrefix (c # cs @ CHR ''?'' # CHR ''='' # r) ''?=''"
    by (cases cs) (auto simp: HasPrefix_two)
  with Cons.IH [OF cl] show ?case by simp
qed

lemma Split_clean:
  "clean x \<Longrightarrow> Split (x @ CHR ''?'' # CHR ''='' # r) ''?='' = x # Split r ''?=''"
  by (subst Split.simps) (simp add: Index_clean)

lemma Index_no_question:
  "\<forall>c \<in> set y. c \<noteq> CHR ''?'' \<Longrightarrow> Index (y @ ''?'') ''?='' = None"
  by (induction y) (auto simp: HasPrefix_two)

lemma clean_word:
  assumes "\<forall>c \<in> set y. c \<noteq> CHR ''?''" and "\<And>c cs. y = c # cs \<Longrightarrow> c \<noteq> CHR ''=''"
  shows "clean (''=?UTF-8?b?'' @ y)" and "clean ('' =?UTF-8?b?'' @ y)"
  using assms Index_no_question [OF assms(1)]
  by (cases y; simp add: clean_def HasPrefix_two)+

lemma clean_b64:
  "clean (''=?UTF-8?b?'' @ StdEncoding_Encode w)" "clean ('' =?UTF-8?b?'' @ StdEncoding_Encode w)"
proof -
  have 1: "\<forall>c \<in> set (StdEncoding_Encode w). c \<noteq> CHR ''?''"
    using StdEncoding_Encode_chars b64char_not by blast
  have 2: "\<And>c cs. StdEncoding_Encode w = c # cs \<Longrightarrow> c \<noteq> CHR ''=''"
    by (rule StdEncoding_Encode_hd)
  show "clean (''=?UTF-8?b?'' @ StdEncoding_Encode w)"
    and "clean ('' =?UTF-8?b?'' @ StdEncoding_Encode w)"
    using clean_word [OF 1 2] by simp_all
qed

lemma joinParts_Cons:
  "rest \<noteq> [] \<Longrightarrow> joinParts (x # rest) = x @ ''?='' @ [LF] @ joinParts rest"
  by (simp add: joinParts_def foldParts_concat)

lemma joinParts_clean:
  "clean x \<Longrightarrow> joinParts (Split (x @ CHR ''?'' # CHR ''='' # r) ''?='')
     = x @ ''?='' @ [LF] @ joinParts (Split r ''?='')"
  by (simp add: Split_clean joinParts_Cons Split_nonempty)

lemma Split_Nil: "Split [] ''?='' = [[]]"
  by (subst Split.simps) simp

lemma joinParts_words:
  assumes "ws \<noteq> []" and "p = ''=?UTF-8?b?'' \<or> p = '' =?UTF-8?b?''"
  shows "joinParts (Split (p @ encodedWords BEncoding ''UTF-8'' ws @ ''?='') ''?='')
           = foldedWords p ws @ [LF]"
  using assms
proof (induction ws arbitrary: p)
  case Nil
  then show ?case by simp
next
  case (Cons w ws)
  from Cons.prems(2) have cl: "clean (p @ StdEncoding_Encode w)"
    using clean_b64 by auto
  show ?case
  proof (cases ws)
    case Nil
    have "joinParts (Split ((p @ StdEncoding_Encode w) @ CHR ''?'' # CHR ''='' # []) ''?='')
            = (p @ StdEncoding_Encode w) @ ''?='' @ [LF] @ joinParts (Split [] ''?='')"
      by (rule joinParts_clean [OF cl])
    then show ?thesis using Nil by (simp add: Split_Nil joinParts_def)
  next
    case (Cons w' ws')
    let ?r = "'' =?UTF-8?b?'' @ encodedWords BEncoding ''UTF-8'' ws @ ''?=''"
    have "joinParts (Split ((p @ StdEncoding_Encode w) @ CHR ''?'' # CHR ''='' # ?r) ''?='')
            = (p @ StdEncoding_Encode w) @ ''?='' @ [LF] @ joinParts (Split ?r ''?='')"
      by (rule joinParts_clean [OF cl])
    moreover have "joinParts (Split ?r ''?='') = foldedWords '' =?UTF-8?b?'' ws @ [LF]"
      using Cons.IH [of "'' =?UTF-8?b?''"] Cons by simp
    ultimately show ?thesis
      using Cons by (simp add: openWord_def BEncoding_def)
  qed
qed

lemma Split_words_length:
  assumes "ws \<noteq> []"
  shows "\<not> length (Split (''=?UTF-8?b?'' @ encodedWords BEncoding ''UTF-8'' ws @ ''?='') ''?='') \<le> 1"
proof -
  obtain w ws' where ws: "ws = w # ws'" using assms by (cases ws) auto
  obtain r where r: "encodedWords BEncoding ''UTF-8'' ws @ ''?='' = StdEncoding_Encode w @ ''?='' @ r"
    unfolding ws by (cases ws') auto
  have "Split ((''=?UTF-8?b?'' @ StdEncoding_Encode w) @ CHR ''?'' # CHR ''='' # r) ''?=''
          = (''=?UTF-8?b?'' @ StdEncoding_Encode w) # Split r ''?=''"
    by (rule Split_clean) (rule clean_b64)
  then show ?thesis
    using r Split_nonempty [of "''?=''" r] by (cases "Split r ''?=''") auto
qed

lemma encodeMIMESubject_words:
  assumes "needsEncoding input"
  shows "\<exists>ws. ws \<noteq> [] \<and> concat ws = input \<and> (\<forall>w \<in> set ws. length w \<le> maxBase64Len)
           \<and> encodeMIMESubject input = foldedWords ''=?UTF-8?b?'' ws"
proof -
  from assms have ne: "input \<noteq> []"
    by (auto simp: needsEncoding.simps [of input])
  from encodeWord_words [of input]
  obtain ws where ws: "ws \<noteq> []" "concat ws = input" "\<forall>w \<in> set ws. length w \<le> maxBase64Len"
    "encodeWord ''UTF-8'' input
       = openWord BEncoding [] ''UTF-8'' @ encodedWords BEncoding ''UTF-8'' ws @ ''?=''"
    by blast
  define encoded where "encoded = ''=?UTF-8?b?'' @ encodedWords BEncoding ''UTF-8'' ws @ ''?=''"
  have enc: "BEncoding_Encode ''UTF-8'' input = encoded"
    using assms ws(4) by (simp add: BEncoding_Encode_def encoded_def openWord_def BEncoding_def)
  have long: "\<not> length (Split encoded ''?='') \<le> 1"
    unfolding encoded_def by (rule Split_words_length [OF ws(1)])
  have "joinParts (Split encoded ''?='') = foldedWords ''=?UTF-8?b?'' ws @ [LF]"
    unfolding encoded_def by (rule joinParts_words [OF ws(1)]) simp
  then have j: "foldParts 0 (butlast (Split encoded ''?='')) [] @ last (Split encoded ''?='')
                  = foldedWords ''=?UTF-8?b?'' ws @ [LF]"
    by (simp add: joinParts_def)
  have "encodeMIMESubject input
          = TrimSuffix (foldParts 0 (butlast (Split encoded ''?='')) []
                          @ last (Split encoded ''?='')) [LF]"
    using ne long by (simp add: encodeMIMESubject_def enc Let_def)
  also have "\<dots> = TrimSuffix (foldedWords ''=?UTF-8?b?'' ws @ [LF]) [LF]"
    by (simp only: j)
  also have "\<dots> = foldedWords ''=?UTF-8?b?'' ws"
    by (simp add: TrimSuffix_LF)
  finally show ?thesis using ws(1-3) by blast
qed


subsubsection \<open>Runes and bytes\<close>

lemma DecodeRuneInString_ascii:
  "byte c < 0x80 \<Longrightarrow> DecodeRuneInString (c # cs) = (byte c, 1)"
  by (simp add: DecodeRuneInString_def utf8_first_def Let_def)

lemma mod_window:
  fixes a :: nat
  assumes "q * m \<le> a" and "a < q * m + m"
  shows "a mod m = a - q * m"
proof -
  have "a mod m = ((a - q * m) + q * m) mod m" using assms by simp
  also have "\<dots> = (a - q * m) mod m" by (simp only: mod_mult_self1)
  also have "\<dots> = a - q * m" using assms by simp
  finally show ?thesis .
qed

lemma rune_bound_2: "(194::nat) \<le> a \<Longrightarrow> a < 224 \<Longrightarrow> 126 < a mod 32 * 64 + b"
  using mod_window [of 6 32 a] by simp

lemma rune_bound_3a: "(160::nat) \<le> a \<Longrightarrow> a \<le> 191 \<Longrightarrow> 126 < a mod 64 * 64 + b"
  using mod_window [of 2 64 a] by simp

lemma rune_bound_3: "(225::nat) \<le> a \<Longrightarrow> a < 240 \<Longrightarrow> 126 < a mod 16 * 4096 + b"
  using mod_window [of 14 16 a] by simp

lemma rune_bound_4a: "(144::nat) \<le> a \<Longrightarrow> a \<le> 191 \<Longrightarrow> 126 < a mod 64 * 4096 + b"
  using mod_window [of 2 64 a] by simp

lemma rune_bound_4: "(241::nat) \<le> a \<Longrightarrow> a < 244 \<Longrightarrow> 126 < a mod 8 * 262144 + b"
  using mod_window [of 30 8 a] by simp

lemma DecodeRuneInString_high:
  assumes "0x80 \<le> byte c"
  shows "0x7E < fst (DecodeRuneInString (c # cs))"
proof -
  define s0 where "s0 = byte c"
  note defs = DecodeRuneInString_def acceptRanges_def RuneError_def Let_def s0_def [symmetric]
  have r1: ?thesis if "0x80 \<le> s0" and "s0 < 0xC2"
  proof -
    from that have "utf8_first s0 = 0xF1" by (simp add: utf8_first_def)
    with that show ?thesis by (simp add: defs)
  qed
  have r2: ?thesis if "0xC2 \<le> s0" and "s0 < 0xE0"
  proof -
    from that have "utf8_first s0 = 0x02" by (simp add: utf8_first_def)
    with that show ?thesis by (simp add: defs rune_bound_2)
  qed
  have r3: ?thesis if "0xE0 \<le> s0" and "s0 < 0xE1"
  proof -
    from that have eq: "s0 = 0xE0" by simp
    from eq have "utf8_first s0 = 0x13" by (simp add: utf8_first_def)
    with eq show ?thesis by (simp add: defs rune_bound_3a add.assoc)
  qed
  have r4: ?thesis if "0xE1 \<le> s0" and "s0 < 0xED"
  proof -
    from that have "utf8_first s0 = 0x03" by (simp add: utf8_first_def)
    with that show ?thesis by (simp add: defs rune_bound_3 add.assoc)
  qed
  have r5: ?thesis if "0xED \<le> s0" and "s0 < 0xEE"
  proof -
    from that have eq: "s0 = 0xED" by simp
    from eq have "utf8_first s0 = 0x23" by (simp add: utf8_first_def)
    with eq show ?thesis by (simp add: defs)
  qed
  have r6: ?thesis if "0xEE \<le> s0" and "s0 < 0xF0"
  proof -
    from that have "utf8_first s0 = 0x03" by (simp add: utf8_first_def)
    with that show ?thesis by (simp add: defs rune_bound_3 add.assoc)
  qed
  have r7: ?thesis if "0xF0 \<le> s0" and "s0 < 0xF1"
  proof -
    from that have eq: "s0 = 0xF0" by simp
    from eq have "utf8_first s0 = 0x34" by (simp add: utf8_first_def)
    with eq show ?thesis by (simp add: defs rune_bound_4a add.assoc)
  qed
  have r8: ?thesis if "0xF1 \<le> s0" and "s0 < 0xF4"
  proof -
    from that have "utf8_first s0 = 0x04" by (simp add: utf8_first_def)
    with that show ?thesis by (simp add: defs rune_bound_4 add.assoc)
  qed
  have r9: ?thesis if "0xF4 \<le> s0" and "s0 < 0xF5"
  proof -
    from that have eq: "s0 = 0xF4" by simp
    from eq have "utf8_first s0 = 0x44" by (simp add: utf8_first_def)
    with eq show ?thesis by (simp add: defs)
  qed
  have r10: ?thesis if "0xF5 \<le> s0"
  proof -
    from that have "utf8_first s0 = 0xF1" by (simp add: utf8_first_def)
    with that show ?thesis by (simp add: defs)
  qed
  from assms have "0x80 \<le> s0" by (simp add: s0_def)
  with r1 r2 r3 r4 r5 r6 r7 r8 r9 r10 show ?thesis
    by (meson not_less)
qed

lemma needsEncoding_iff: "needsEncoding s \<longleftrightarrow> (\<exists>c \<in> set s. \<not> plainByte c)"
proof (induction s)
  case Nil
  show ?case by (simp add: needsEncoding.simps [of "[]"])
next
  case (Cons c cs)
  show ?case
  proof (cases "byte c < 0x80")
    case True
    then show ?thesis
      using Cons.IH
      by (auto simp: needsEncoding.simps [of "c # cs"] DecodeRuneInString_ascii plainByte_def
          Let_def)
  next
    case False
    then have h: "0x7E < fst (DecodeRuneInString (c # cs))"
      by (intro DecodeRuneInString_high) simp
    from False have "\<not> plainByte c" by (simp add: plainByte_def)
    with h show ?thesis
      by (auto simp: needsEncoding.simps [of "c # cs"] Let_def)
  qed
qed


subsubsection \<open>Prefixes, suffixes and line breaks\<close>

lemma HasSuffix_iff: "HasSuffix s suf \<longleftrightarrow> (\<exists>x. s = x @ suf)"
proof
  assume "HasSuffix s suf"
  then have "s = take (length s - length suf) s @ suf"
    by (metis HasSuffix_def append_take_drop_id)
  then show "\<exists>x. s = x @ suf" ..
next
  assume "\<exists>x. s = x @ suf"
  then show "HasSuffix s suf" by (auto simp: HasSuffix_def)
qed

lemma HasPrefix_iff: "HasPrefix s pre \<longleftrightarrow> (\<exists>x. s = pre @ x)"
proof
  assume "HasPrefix s pre"
  then have "s = pre @ drop (length pre) s"
    by (metis HasPrefix_def append_take_drop_id)
  then show "\<exists>x. s = pre @ x" ..
next
  assume "\<exists>x. s = pre @ x"
  then show "HasPrefix s pre" by (auto simp: HasPrefix_def)
qed

lemma foldedWords_prefix: "ws \<noteq> [] \<Longrightarrow> HasPrefix (foldedWords p ws) p"
  by (cases ws; cases "tl ws") (auto simp: HasPrefix_iff)

lemma foldedWords_suffix: "ws \<noteq> [] \<Longrightarrow> HasSuffix (foldedWords p ws) ''?=''"
proof (induction p ws rule: foldedWords.induct)
  case (3 p w v ws)
  then obtain x where "foldedWords '' =?UTF-8?b?'' (v # ws) = x @ ''?=''"
    by (auto simp: HasSuffix_iff)
  then have "foldedWords p (w # v # ws) = (p @ StdEncoding_Encode w @ ''?='' @ [LF] @ x) @ ''?=''"
    by simp
  then show ?case unfolding HasSuffix_iff by blast
qed (simp_all add: HasSuffix_iff)

lemma Index_None_Split: "sep \<noteq> [] \<Longrightarrow> Index s sep = None \<Longrightarrow> Split s sep = [s]"
  by (subst Split.simps) simp

lemma encodeMIMESubject_foldEncoded:
  "input \<noteq> [] \<Longrightarrow> encodeMIMESubject input = foldEncoded (BEncoding_Encode ''UTF-8'' input)"
  by (simp add: encodeMIMESubject_def foldEncoded_def Let_def)

lemma Split_set: "sep \<noteq> [] \<Longrightarrow> p \<in> set (Split s sep) \<Longrightarrow> set p \<subseteq> set s"
proof (induction s sep arbitrary: p rule: Split.induct)
  case (1 s sep)
  show ?case
  proof (cases "Index s sep")
    case None
    with 1(2,3) show ?thesis by (simp add: Split.simps [of s sep])
  next
    case (Some m)
    with 1(2,3) have "p = take m s \<or> p \<in> set (Split (drop (m + length sep) s) sep)"
      by (simp add: Split.simps [of s sep])
    then show ?thesis
    proof
      assume "p = take m s"
      then show ?thesis by (auto dest: in_set_takeD)
    next
      assume "p \<in> set (Split (drop (m + length sep) s) sep)"
      from 1(1) [OF 1(2) Some 1(2) this] show ?thesis by (auto dest: in_set_dropD)
    qed
  qed
qed

lemma first_break:
  "LF \<notin> set a \<Longrightarrow> a @ LF # b = pre @ LF # post \<Longrightarrow>
     (pre = a \<and> post = b) \<or> (\<exists>pre'. pre = a @ LF # pre' \<and> b = pre' @ LF # post)"
proof (induction a arbitrary: pre)
  case Nil
  then show ?case by (cases pre) auto
next
  case (Cons x a)
  then show ?case by (cases pre) auto
qed

lemma breaks_joined:
  assumes "\<forall>p \<in> set ps. LF \<notin> set p" and "LF \<notin> set l"
    and "concat (map (\<lambda>seg. seg @ ''?='' @ [LF]) ps) @ l = pre @ LF # post"
  shows "HasSuffix pre ''?=''"
  using assms
proof (induction ps arbitrary: pre)
  case Nil
  then show ?case by auto
next
  case (Cons p ps)
  let ?rest = "concat (map (\<lambda>seg. seg @ ''?='' @ [LF]) ps) @ l"
  from Cons.prems(1) have nl: "LF \<notin> set (p @ ''?='')" by (simp add: LF_def)
  from Cons.prems(3) have "(p @ ''?='') @ LF # ?rest = pre @ LF # post" by simp
  from first_break [OF nl this]
  show ?case
  proof
    assume "pre = p @ ''?='' \<and> post = ?rest"
    then show ?thesis by (auto simp: HasSuffix_iff)
  next
    assume "\<exists>pre'. pre = (p @ ''?='') @ LF # pre' \<and> ?rest = pre' @ LF # post"
    then obtain pre' where p: "pre = (p @ ''?='') @ LF # pre'" "?rest = pre' @ LF # post"
      by blast
    from Cons.IH [OF _ Cons.prems(2) p(2)] Cons.prems(1)
    obtain x where "pre' = x @ ''?=''" by (auto simp: HasSuffix_iff)
    with p(1) have "pre = (p @ ''?='' @ LF # x) @ ''?=''" by simp
    then show ?thesis unfolding HasSuffix_iff by blast
  qed
qed

lemma TrimSuffix_snoc: "TrimSuffix (y @ [LF]) [LF] = y"
  by (simp add: TrimSuffix_LF)

lemma foldEncoded_breaks:
  assumes "LF \<notin> set encoded"
  shows "(\<forall>pre post. foldEncoded encoded = pre @ LF # post \<longrightarrow> HasSuffix pre ''?='')
       \<and> \<not> HasSuffix (foldEncoded encoded) [LF]"
proof (cases "length (Split encoded ''?='') \<le> 1")
  case True
  then have "foldEncoded encoded = encoded" by (simp add: foldEncoded_def)
  with assms show ?thesis by (auto simp: HasSuffix_iff)
next
  case False
  define parts where "parts = Split encoded ''?=''"
  define ps where "ps = butlast parts"
  define l where "l = last parts"
  define J where "J = concat (map (\<lambda>seg. seg @ ''?='' @ [LF]) ps) @ l"
  from False have ne: "parts \<noteq> []" "ps \<noteq> []"
    unfolding ps_def parts_def by (cases "Split encoded ''?=''"; auto)+
  have sub: "\<forall>p \<in> set parts. LF \<notin> set p"
    using Split_set [of "''?=''" _ encoded] assms unfolding parts_def by auto
  have nps: "\<forall>p \<in> set ps. LF \<notin> set p"
    using sub unfolding ps_def by (auto dest: in_set_butlastD)
  have nl: "LF \<notin> set l"
    using sub ne(1) unfolding l_def by simp
  have out: "foldEncoded encoded = TrimSuffix J [LF]"
    using False by (simp add: foldEncoded_def parts_def ps_def l_def J_def foldParts_concat Let_def)
  have a: "HasSuffix pre ''?=''" if "TrimSuffix J [LF] = pre @ LF # post" for pre post
  proof (cases "J \<noteq> [] \<and> last J = LF")
    case True
    with that have "butlast J = pre @ LF # post" by (simp add: TrimSuffix_LF)
    with True have "J = pre @ LF # (post @ [LF])"
      by (metis append.assoc append_Cons append_butlast_last_id)
    then show ?thesis using breaks_joined [OF nps nl] unfolding J_def by blast
  next
    case False
    with that have "J = pre @ LF # post" by (simp add: TrimSuffix_LF)
    then show ?thesis using breaks_joined [OF nps nl] unfolding J_def by blast
  qed
  have b: "\<not> HasSuffix (TrimSuffix J [LF]) [LF]"
  proof (cases "l = []")
    case True
    from ne(2) obtain qs q where "ps = qs @ [q]" by (cases ps rule: rev_cases) auto
    define Y where "Y = concat (map (\<lambda>seg. seg @ ''?='' @ [LF]) qs) @ q @ ''?=''"
    from True \<open>ps = qs @ [q]\<close> have "J = Y @ [LF]"
      by (simp add: J_def Y_def)
    then have "TrimSuffix J [LF] = Y"
      by (simp only: TrimSuffix_snoc)
    moreover have "\<not> HasSuffix Y [LF]"
      by (simp add: Y_def HasSuffix_def LF_def)
    ultimately show ?thesis by simp
  next
    case False
    then have "last J = last l" "J \<noteq> []" by (simp_all add: J_def)
    moreover from False nl have "last l \<noteq> LF" using last_in_set by metis
    ultimately have "TrimSuffix J [LF] = J" "last J \<noteq> LF" by (simp_all add: TrimSuffix_LF)
    then show ?thesis by (auto simp: HasSuffix_iff)
  qed
  from a b out show ?thesis by simp
qed

subsubsection \<open>The lines of the output\<close>

lemma encodedWords_chars:
  "c \<in> set (encodedWords e charset ws) \<Longrightarrow>
     b64char c \<or> c \<in> set (''?= '' @ openWord e [] charset)"
  by (induction e charset ws rule: encodedWords.induct)
     (auto dest: StdEncoding_Encode_chars)

lemma BEncoding_Encode_no_LF: "LF \<notin> set (BEncoding_Encode ''UTF-8'' input)"
proof (cases "needsEncoding input")
  case False
  then have "\<forall>c \<in> set input. plainByte c" by (simp add: needsEncoding_iff)
  moreover have "\<not> plainByte LF" by (simp add: plainByte_def LF_def)
  ultimately have "LF \<notin> set input" by blast
  with False show ?thesis by (simp add: BEncoding_Encode_def)
next
  case True
  from encodeWord_words [of input]
  obtain ws where ws: "encodeWord ''UTF-8'' input
       = openWord BEncoding [] ''UTF-8'' @ encodedWords BEncoding ''UTF-8'' ws @ ''?=''"
    by blast
  have "LF \<notin> set (encodedWords BEncoding ''UTF-8'' ws)"
    using encodedWords_chars [of LF BEncoding "''UTF-8''" ws] b64char_not [of LF]
    by (auto simp: openWord_def BEncoding_def LF_def)
  with True ws show ?thesis
    by (simp add: BEncoding_Encode_def openWord_def BEncoding_def LF_def)
qed

lemma Index_single_None: "c \<notin> set x \<Longrightarrow> Index x [c] = None"
  by (induction x) (auto simp: HasPrefix_def)

lemma Index_single: "c \<notin> set x \<Longrightarrow> Index (x @ c # r) [c] = Some (length x)"
  by (induction x) (auto simp: HasPrefix_def)

lemma Split_line: "LF \<notin> set x \<Longrightarrow> Split x [LF] = [x]"
  by (subst Split.simps) (simp add: Index_single_None)

lemma Split_lines: "LF \<notin> set x \<Longrightarrow> Split (x @ LF # r) [LF] = x # Split r [LF]"
  by (subst Split.simps) (simp add: Index_single)

lemma EncodedLen_bound: "n \<le> 45 \<Longrightarrow> EncodedLen n \<le> 60"
proof -
  assume "n \<le> 45"
  then have "(n + 2) div 3 \<le> 15" by simp
  then show ?thesis by (simp add: EncodedLen_def)
qed

lemma word_line:
  assumes "p = ''=?UTF-8?b?'' \<or> p = '' =?UTF-8?b?''" and "length w \<le> maxBase64Len"
  shows "LF \<notin> set (p @ StdEncoding_Encode w @ ''?='')"
    and "length (p @ StdEncoding_Encode w @ ''?='') \<le> maxEncodedWordLen"
proof -
  have "LF \<notin> set (StdEncoding_Encode w)"
    using StdEncoding_Encode_chars b64char_not by blast
  with assms(1) show "LF \<notin> set (p @ StdEncoding_Encode w @ ''?='')"
    by (auto simp: LF_def)
  from assms(2) have "length (StdEncoding_Encode w) \<le> 60"
    by (simp add: StdEncoding_Encode_length EncodedLen_bound maxBase64Len_eq)
  with assms(1) show "length (p @ StdEncoding_Encode w @ ''?='') \<le> maxEncodedWordLen"
    by (auto simp: maxEncodedWordLen_def)
qed

lemma foldedWords_lines:
  assumes "p = ''=?UTF-8?b?'' \<or> p = '' =?UTF-8?b?''" and "\<forall>w \<in> set ws. length w \<le> maxBase64Len"
    and "line \<in> set (Split (foldedWords p ws) [LF])"
  shows "length line \<le> maxEncodedWordLen"
  using assms
proof (induction p ws rule: foldedWords.induct)
  case (1 p)
  then show ?case by (simp add: Split_line)
next
  case (2 p w)
  then have "LF \<notin> set (p @ StdEncoding_Encode w @ ''?='')"
    and "length (p @ StdEncoding_Encode w @ ''?='') \<le> maxEncodedWordLen"
    using word_line [of p w] by simp_all
  with 2(3) show ?case by (simp add: Split_line)
next
  case (3 p w v ws)
  let ?x = "p @ StdEncoding_Encode w @ ''?=''"
  from 3(2,3) have x: "LF \<notin> set ?x" "length ?x \<le> maxEncodedWordLen"
    using word_line [of p w] by simp_all
  have "foldedWords p (w # v # ws) = ?x @ LF # foldedWords '' =?UTF-8?b?'' (v # ws)"
    by simp
  then have "Split (foldedWords p (w # v # ws)) [LF]
               = ?x # Split (foldedWords '' =?UTF-8?b?'' (v # ws)) [LF]"
    using Split_lines [OF x(1)] by simp
  with 3(4) have "line = ?x \<or> line \<in> set (Split (foldedWords '' =?UTF-8?b?'' (v # ws)) [LF])"
    by simp
  then show ?case
  proof
    assume "line = ?x"
    with x(2) show ?thesis by simp
  next
    assume "line \<in> set (Split (foldedWords '' =?UTF-8?b?'' (v # ws)) [LF])"
    with 3(1) 3(3) show ?thesis by simp
  qed
qed

subsubsection \<open>The output for an encoded subject is a folded header value\<close>

lemma encodedWord_written: "encodedWord (''=?UTF-8?b?'' @ StdEncoding_Encode w @ ''?='')"
proof -
  have "list_all b64char (StdEncoding_Encode w)"
    using StdEncoding_Encode_chars by (auto simp: list_all_iff)
  then show ?thesis
    by (simp add: encodedWord_def HasPrefix_def HasSuffix_def)
qed

lemma continuationLine_written:
  "continuationLine ('' =?UTF-8?b?'' @ StdEncoding_Encode w @ ''?='')"
  using encodedWord_written [of w] by (simp add: continuationLine_def)

lemma foldedWords_continuation:
  assumes "ws \<noteq> []" and "\<forall>w \<in> set ws. length w \<le> maxBase64Len"
  shows "list_all continuationLine (Split (foldedWords '' =?UTF-8?b?'' ws) [LF])"
  using assms
proof (induction ws)
  case Nil
  then show ?case by simp
next
  case (Cons w ws)
  let ?x = "'' =?UTF-8?b?'' @ StdEncoding_Encode w @ ''?=''"
  from Cons.prems(2) have nl: "LF \<notin> set ?x"
    using word_line(1) [of "'' =?UTF-8?b?''" w] by simp
  show ?case
  proof (cases ws)
    case Nil
    then have "Split (foldedWords '' =?UTF-8?b?'' (w # ws)) [LF] = [?x]"
      using Split_line [OF nl] by simp
    then show ?thesis using continuationLine_written [of w] by simp
  next
    case (Cons v vs)
    then have "foldedWords '' =?UTF-8?b?'' (w # ws) = ?x @ LF # foldedWords '' =?UTF-8?b?'' ws"
      by simp
    then have "Split (foldedWords '' =?UTF-8?b?'' (w # ws)) [LF]
                 = ?x # Split (foldedWords '' =?UTF-8?b?'' ws) [LF]"
      using Split_lines [OF nl] by simp
    moreover have "list_all continuationLine (Split (foldedWords '' =?UTF-8?b?'' ws) [LF])"
      using Cons.IH Cons.prems(2) Cons by simp
    ultimately show ?thesis using continuationLine_written [of w] by simp
  qed
qed

lemma foldedWords_foldedHeaderValue:
  assumes "ws \<noteq> []" and "\<forall>w \<in> set ws. length w \<le> maxBase64Len"
  shows "foldedHeaderValue (foldedWords ''=?UTF-8?b?'' ws)"
proof -
  obtain w ws' where ws: "ws = w # ws'" using assms(1) by (cases ws) auto
  let ?x = "''=?UTF-8?b?'' @ StdEncoding_Encode w @ ''?=''"
  from assms(2) ws have nl: "LF \<notin> set ?x"
    using word_line(1) [of "''=?UTF-8?b?''" w] by simp
  show ?thesis
  proof (cases ws')
    case Nil
    then have "Split (foldedWords ''=?UTF-8?b?'' ws) [LF] = [?x]"
      using Split_line [OF nl] ws by simp
    then show ?thesis using encodedWord_written [of w] by (simp add: foldedHeaderValue_def)
  next
    case (Cons v vs)
    then have "foldedWords ''=?UTF-8?b?'' ws = ?x @ LF # foldedWords '' =?UTF-8?b?'' ws'"
      using ws by simp
    then have "Split (foldedWords ''=?UTF-8?b?'' ws) [LF]
                 = ?x # Split (foldedWords '' =?UTF-8?b?'' ws') [LF]"
      using Split_lines [OF nl] by simp
    moreover have "list_all continuationLine (Split (foldedWords '' =?UTF-8?b?'' ws') [LF])"
      using foldedWords_continuation [of ws'] assms(2) ws Cons by simp
    ultimately show ?thesis using encodedWord_written [of w] by (simp add: foldedHeaderValue_def)
  qed
qed

lemma foldedWords_break:
  assumes "p = ''=?UTF-8?b?'' \<or> p = '' =?UTF-8?b?''" and "\<forall>w \<in> set ws. length w \<le> maxBase64Len"
    and "foldedWords p ws = pre @ LF # post"
  shows "\<exists>q x. pre = q @ x \<and> encodedWord x"
  using assms
proof (induction p ws arbitrary: pre rule: foldedWords.induct)
  case (1 p)
  then show ?case by simp
next
  case (2 p w)
  then have "LF \<notin> set (p @ StdEncoding_Encode w @ ''?='')"
    using word_line(1) [of p w] by simp
  with 2(3) show ?case
    by (metis foldedWords.simps(2) in_set_conv_decomp)
next
  case (3 p w v ws)
  let ?x = "p @ StdEncoding_Encode w @ ''?=''"
  let ?rest = "foldedWords '' =?UTF-8?b?'' (v # ws)"
  from 3(2,3) have nl: "LF \<notin> set ?x"
    using word_line(1) [of p w] by simp
  from 3(4) have "?x @ LF # ?rest = pre @ LF # post" by simp
  from first_break [OF nl this]
  show ?case
  proof
    assume "pre = ?x \<and> post = ?rest"
    then have pre: "pre = ?x" by simp
    from 3(2) show ?thesis
    proof
      assume "p = ''=?UTF-8?b?''"
      with pre have "pre = [] @ (''=?UTF-8?b?'' @ StdEncoding_Encode w @ ''?='')" by simp
      with encodedWord_written [of w] show ?thesis by blast
    next
      assume "p = '' =?UTF-8?b?''"
      with pre have "pre = '' '' @ (''=?UTF-8?b?'' @ StdEncoding_Encode w @ ''?='')" by simp
      with encodedWord_written [of w] show ?thesis by blast
    qed
  next
    assume "\<exists>pre'. pre = ?x @ LF # pre' \<and> ?rest = pre' @ LF # post"
    then obtain pre' where p: "pre = ?x @ LF # pre'" "?rest = pre' @ LF # post" by blast
    from 3(1) [OF _ _ p(2)] 3(3)
    obtain q x where "pre' = q @ x" "encodedWord x" by auto
    with p(1) have "pre = (?x @ LF # q) @ x" by simp
    with \<open>encodedWord x\<close> show ?thesis by blast
  qed
qed

lemma plain_no_LF: "\<forall>c \<in> set s. plainByte c \<Longrightarrow> LF \<notin> set s"
proof
  assume a: "\<forall>c \<in> set s. plainByte c" and "LF \<in> set s"
  then have "plainByte LF" by blast
  then show False by (simp add: plainByte_def LF_def)
qed

text \<open>A value whose second line does not start with a space and an encoded-word is not
  a folded header value.\<close>

lemma foldedHeaderValue_continuation:
  "\<not> foldedHeaderValue (''=?UTF-8?b?AQ==?='' @ [LF] @ ''Bcc: y'')"
  by code_simp

subsubsection \<open>Decoding what the base64 encoder wrote\<close>

lemma positionIn_nth:
  "distinct xs \<Longrightarrow> k < length xs \<Longrightarrow> positionIn (xs ! k) xs = Some k"
proof (induction xs arbitrary: k)
  case Nil
  then show ?case by simp
next
  case (Cons x xs)
  then show ?case by (cases k) auto
qed

lemma encodeStd_distinct: "distinct encodeStd"
  by (simp add: encodeStd_def)

lemma decodeMap_nth: "k < 64 \<Longrightarrow> decodeMap (encodeStd ! k) = k"
  using positionIn_nth [OF encodeStd_distinct, of k]
  by (simp add: decodeMap_def encodeStd_length)

lemma positionIn_None: "c \<notin> set xs \<Longrightarrow> positionIn c xs = None"
  by (induction xs) auto

lemma decodeMap_pad: "decodeMap (CHR ''='') = 0xFF"
proof -
  have "CHR ''='' \<notin> set encodeStd" using encodeStd_chars by blast
  then show ?thesis by (simp add: decodeMap_def positionIn_None)
qed

lemma sextets_regroup:
  fixes v :: nat
  assumes "v < 16777216"
  shows "v div 262144 mod 64 * 262144 + v div 4096 mod 64 * 4096 + v div 64 mod 64 * 64
           + v mod 64 = v"
proof -
  define q1 where "q1 = v div 64"
  define q2 where "q2 = q1 div 64"
  define q3 where "q3 = q2 div 64"
  have d2: "v div 4096 = q2" unfolding q2_def q1_def by (simp add: div_mult2_eq)
  have d3: "v div 262144 = q3" unfolding q3_def q2_def q1_def by (simp add: div_mult2_eq)
  from assms have "q3 < 64" unfolding d3 [symmetric] by simp
  then have m3: "q3 mod 64 = q3" by simp
  have e1: "v = q1 * 64 + v mod 64" unfolding q1_def by simp
  have e2: "q1 = q2 * 64 + q1 mod 64" unfolding q2_def by simp
  have e3: "q2 = q3 * 64 + q2 mod 64" unfolding q3_def by simp
  have "q3 * 262144 + q2 mod 64 * 4096 + q1 mod 64 * 64 + v mod 64
          = (q3 * 64 + q2 mod 64) * 4096 + q1 mod 64 * 64 + v mod 64"
    by simp
  also have "\<dots> = q2 * 4096 + q1 mod 64 * 64 + v mod 64" using e3 by simp
  also have "\<dots> = (q2 * 64 + q1 mod 64) * 64 + v mod 64" by simp
  also have "\<dots> = q1 * 64 + v mod 64" using e2 by simp
  also have "\<dots> = v" using e1 by simp
  finally show ?thesis by (simp add: d2 d3 m3 q1_def [symmetric])
qed

lemma bytes_of_val:
  fixes a b c :: nat
  assumes "a < 256" and "b < 256" and "c < 256"
  shows "(a * 65536 + b * 256 + c) div 65536 mod 256 = a"
    and "(a * 65536 + b * 256 + c) div 256 mod 256 = b"
    and "(a * 65536 + b * 256 + c) mod 256 = c"
proof -
  define v where "v = a * 65536 + b * 256 + c"
  define u where "u = a * 256 + b"
  have eq: "v = c + u * 256" by (simp add: v_def u_def)
  have d1: "v div 256 = u"
    unfolding eq using assms(3) by simp
  have m1: "v mod 256 = c"
    unfolding eq using assms(3) by (simp only: mod_mult_self1 mod_less)
  have eq2: "u = b + a * 256" by (simp add: u_def)
  have d2: "u div 256 = a"
    unfolding eq2 using assms(2) by simp
  have m2: "u mod 256 = b"
    unfolding eq2 using assms(2) by (simp only: mod_mult_self1 mod_less)
  have "v div 65536 = v div 256 div 256"
    by (simp add: div_mult2_eq)
  then have "v div 65536 = a" by (simp only: d1 d2)
  with assms(1) show "(a * 65536 + b * 256 + c) div 65536 mod 256 = a"
    by (simp only: v_def [symmetric] mod_less)
  from m2 show "(a * 65536 + b * 256 + c) div 256 mod 256 = b"
    by (simp only: v_def [symmetric] d1)
  from m1 show "(a * 65536 + b * 256 + c) mod 256 = c"
    by (simp only: v_def [symmetric])
qed

lemma byte_less: "byte c < 256"
  by (cases c) simp

lemma val_less:
  fixes a b c :: nat
  assumes "a < 256" and "b < 256" and "c < 256"
  shows "a * 65536 + b * 256 + c < 16777216"
  using assms by linarith

lemma quantumBytes_four:
  "quantumBytes [k0, k1, k2, k3] =
     [char_of ((k0 * 262144 + k1 * 4096 + k2 * 64 + k3) div 65536 mod 256),
      char_of ((k0 * 262144 + k1 * 4096 + k2 * 64 + k3) div 256 mod 256),
      char_of ((k0 * 262144 + k1 * 4096 + k2 * 64 + k3) mod 256)]"
  by (simp add: quantumBytes_def Let_def)

lemma quantumBytes_three:
  "quantumBytes [k0, k1, k2] =
     [char_of ((k0 * 262144 + k1 * 4096 + k2 * 64 + 0) div 65536 mod 256),
      char_of ((k0 * 262144 + k1 * 4096 + k2 * 64 + 0) div 256 mod 256)]"
  by (simp add: quantumBytes_def Let_def)

lemma quantumBytes_two:
  "quantumBytes [k0, k1] = [char_of ((k0 * 262144 + k1 * 4096 + 0 * 64 + 0) div 65536 mod 256)]"
  by (simp add: quantumBytes_def Let_def)

lemma quantumBytes_4:
  assumes "v = byte a * 65536 + byte b * 256 + byte c"
  shows "quantumBytes [v div 262144 mod 64, v div 4096 mod 64, v div 64 mod 64, v mod 64]
           = [a, b, c]"
proof -
  have lt: "byte a < 256" "byte b < 256" "byte c < 256" by (rule byte_less)+
  have "v < 16777216" unfolding assms by (rule val_less [OF lt])
  from sextets_regroup [OF this]
  have "quantumBytes [v div 262144 mod 64, v div 4096 mod 64, v div 64 mod 64, v mod 64]
          = [char_of (v div 65536 mod 256), char_of (v div 256 mod 256), char_of (v mod 256)]"
    by (simp only: quantumBytes_four)
  also have "\<dots> = [a, b, c]"
    unfolding assms by (simp only: bytes_of_val [OF lt] char_of_char)
  finally show ?thesis .
qed


lemma mod_64_zero:
  fixes a b :: nat
  shows "(a * 65536 + b * 256) mod 64 = 0"
proof -
  have "a * 65536 + b * 256 = 0 + (a * 1024 + b * 4) * 64" by simp
  then show ?thesis by (simp only: mod_mult_self1 mod_0)
qed

lemma quantumBytes_3:
  assumes "v = byte a * 65536 + byte b * 256"
  shows "quantumBytes [v div 262144 mod 64, v div 4096 mod 64, v div 64 mod 64] = [a, b]"
proof -
  have lt: "byte a < 256" "byte b < 256" "(0::nat) < 256" by (rule byte_less)+ simp
  have v0: "v = byte a * 65536 + byte b * 256 + 0" unfolding assms by simp
  have v: "v < 16777216" unfolding v0 by (rule val_less [OF lt])
  have m: "v mod 64 = 0" unfolding assms by (rule mod_64_zero)
  have r: "v div 262144 mod 64 * 262144 + v div 4096 mod 64 * 4096 + v div 64 mod 64 * 64 + 0 = v"
    using sextets_regroup [OF v] unfolding m .
  have "quantumBytes [v div 262144 mod 64, v div 4096 mod 64, v div 64 mod 64]
          = [char_of (v div 65536 mod 256), char_of (v div 256 mod 256)]"
    by (simp only: quantumBytes_three r)
  also have "\<dots> = [a, b]"
    unfolding v0 by (simp only: bytes_of_val [OF lt] char_of_char)
  finally show ?thesis .
qed

lemma quantumBytes_2:
  assumes "v = byte a * 65536"
  shows "quantumBytes [v div 262144 mod 64, v div 4096 mod 64] = [a]"
proof -
  have lt: "byte a < 256" "(0::nat) < 256" "(0::nat) < 256" by (rule byte_less) simp_all
  have v0: "v = byte a * 65536 + 0 * 256 + 0" unfolding assms by simp
  have v: "v < 16777216" unfolding v0 by (rule val_less [OF lt])
  have m: "v mod 64 = 0" using mod_64_zero [of "byte a" 0] unfolding assms by simp
  have "v = 0 + (byte a * 1024) * 64" unfolding assms by simp
  then have "v div 64 = byte a * 1024" by simp
  moreover have "byte a * 1024 = 0 + (byte a * 16) * 64" by simp
  then have "(byte a * 1024) mod 64 = 0" by (simp only: mod_mult_self1 mod_0)
  ultimately have m2: "v div 64 mod 64 = 0" by simp
  have r: "v div 262144 mod 64 * 262144 + v div 4096 mod 64 * 4096 + 0 * 64 + 0 = v"
    using sextets_regroup [OF v] unfolding m m2 .
  have "quantumBytes [v div 262144 mod 64, v div 4096 mod 64] = [char_of (v div 65536 mod 256)]"
    by (simp only: quantumBytes_two r)
  also have "\<dots> = [a]"
    unfolding v0 by (simp only: bytes_of_val [OF lt] char_of_char)
  finally show ?thesis .
qed

lemma Decode_step:
  assumes "k < 64"
  shows "StdEncoding_Decode dbuf (encodeStd ! k # src) =
           (if length dbuf = 3
            then map_option (\<lambda>rest. quantumBytes (dbuf @ [k]) @ rest) (StdEncoding_Decode [] src)
            else StdEncoding_Decode (dbuf @ [k]) src)"
proof -
  from assms have "decodeMap (encodeStd ! k) = k" and "k \<noteq> 255"
    by (simp_all add: decodeMap_nth)
  then show ?thesis by simp
qed

lemma Decode_pad_3:
  "StdEncoding_Decode [k0, k1, k2] [CHR ''=''] = Some (quantumBytes [k0, k1, k2])"
  by (simp add: decodeMap_pad LF_def CR_def)

lemma Decode_pad_2:
  "StdEncoding_Decode [k0, k1] [CHR ''='', CHR ''=''] = Some (quantumBytes [k0, k1])"
  by (simp add: decodeMap_pad LF_def CR_def)

lemma Decode_quantum_4:
  assumes "k0 < 64" "k1 < 64" "k2 < 64" "k3 < 64"
  shows "StdEncoding_Decode [] (encodeStd ! k0 # encodeStd ! k1 # encodeStd ! k2 # encodeStd ! k3 # rest)
           = map_option (\<lambda>r. quantumBytes [k0, k1, k2, k3] @ r) (StdEncoding_Decode [] rest)"
  by (simp add: Decode_step [OF assms(1)] Decode_step [OF assms(2)]
      Decode_step [OF assms(3)] Decode_step [OF assms(4)] del: StdEncoding_Decode.simps)

lemma Decode_quantum_3:
  assumes "k0 < 64" "k1 < 64" "k2 < 64"
  shows "StdEncoding_Decode [] [encodeStd ! k0, encodeStd ! k1, encodeStd ! k2, CHR ''='']
           = Some (quantumBytes [k0, k1, k2])"
  by (simp add: Decode_step [OF assms(1)] Decode_step [OF assms(2)]
      Decode_step [OF assms(3)] Decode_pad_3 del: StdEncoding_Decode.simps)

lemma Decode_quantum_2:
  assumes "k0 < 64" "k1 < 64"
  shows "StdEncoding_Decode [] [encodeStd ! k0, encodeStd ! k1, CHR ''='', CHR ''='']
           = Some (quantumBytes [k0, k1])"
  by (simp add: Decode_step [OF assms(1)] Decode_step [OF assms(2)] Decode_pad_2
      del: StdEncoding_Decode.simps)

lemma DecodeString_Encode: "StdEncoding_Decode [] (StdEncoding_Encode src) = Some src"
proof (induction src rule: StdEncoding_Encode.induct)
  case (1 a b c src)
  define v where "v = byte a * 65536 + byte b * 256 + byte c"
  have enc: "StdEncoding_Encode (a # b # c # src)
               = encodeStd ! (v div 262144 mod 64) # encodeStd ! (v div 4096 mod 64)
                   # encodeStd ! (v div 64 mod 64) # encodeStd ! (v mod 64)
                   # StdEncoding_Encode src"
    unfolding v_def by (simp only: StdEncoding_Encode.simps Let_def append.simps)
  have "StdEncoding_Decode [] (StdEncoding_Encode (a # b # c # src))
          = map_option (\<lambda>r. quantumBytes [v div 262144 mod 64, v div 4096 mod 64,
                                            v div 64 mod 64, v mod 64] @ r)
              (StdEncoding_Decode [] (StdEncoding_Encode src))"
    unfolding enc by (rule Decode_quantum_4) simp_all
  also have "\<dots> = Some ([a, b, c] @ src)"
    by (simp only: 1 quantumBytes_4 [OF v_def] option.map)
  finally show ?case by simp
next
  case (2 a b)
  define v where "v = byte a * 65536 + byte b * 256"
  have enc: "StdEncoding_Encode [a, b]
               = [encodeStd ! (v div 262144 mod 64), encodeStd ! (v div 4096 mod 64),
                  encodeStd ! (v div 64 mod 64), CHR ''='']"
    unfolding v_def by (simp only: StdEncoding_Encode.simps Let_def)
  have "StdEncoding_Decode [] (StdEncoding_Encode [a, b])
          = Some (quantumBytes [v div 262144 mod 64, v div 4096 mod 64, v div 64 mod 64])"
    unfolding enc by (rule Decode_quantum_3) simp_all
  then show ?case by (simp only: quantumBytes_3 [OF v_def])
next
  case (3 a)
  define v where "v = byte a * 65536"
  have enc: "StdEncoding_Encode [a]
               = [encodeStd ! (v div 262144 mod 64), encodeStd ! (v div 4096 mod 64),
                  CHR ''='', CHR ''='']"
    unfolding v_def by (simp only: StdEncoding_Encode.simps Let_def)
  have "StdEncoding_Decode [] (StdEncoding_Encode [a])
          = Some (quantumBytes [v div 262144 mod 64, v div 4096 mod 64])"
    unfolding enc by (rule Decode_quantum_2) simp_all
  then show ?case by (simp only: quantumBytes_2 [OF v_def])
next
  case 4
  show ?case by simp
qed

subsubsection \<open>The decoder on the output for an encoded subject\<close>

lemma clean_encoded: "clean (StdEncoding_Encode w)"
  unfolding clean_def
  by (rule Index_no_question) (use StdEncoding_Encode_chars b64char_not in blast)

lemma Index_encoded:
  "Index (StdEncoding_Encode w @ CHR ''?'' # CHR ''='' # rest) ''?='' = Some (EncodedLen (length w))"
  using Index_clean [OF clean_encoded] by (simp add: StdEncoding_Encode_length)

lemma EqualFold_utf8: "EqualFold ''utf-8'' ''UTF-8''"
  by (simp add: DecodeRuneInString_ascii foldEq_def)

lemma convert_utf8: "convert buf ''UTF-8'' content = Some (buf @ content)"
  by (simp only: convert_def EqualFold_utf8 if_True)

lemma decode_encoded: "decode (CHR ''b'') (StdEncoding_Encode w) = Some w"
  by (simp add: decode_def DecodeString_def DecodeString_Encode)

lemma hasNonWhitespace_fold: "\<not> hasNonWhitespace [LF, CHR '' '']"
  by (simp add: hasNonWhitespace.simps DecodeRuneInString_ascii LF_def)

lemma loop_first_word:
  "DecodeHeader_loop (''=?UTF-8?b?'' @ StdEncoding_Encode w @ ''?='' @ rest) betweenWords buf
     = DecodeHeader_loop rest True (buf @ w)"
  by (subst DecodeHeader_loop.simps)
     (simp add: Let_def HasPrefix_def Index_encoded StdEncoding_Encode_length [symmetric]
        decode_encoded convert_utf8)

lemma loop_next_word:
  "DecodeHeader_loop (LF # '' =?UTF-8?b?'' @ StdEncoding_Encode w @ ''?='' @ rest) True buf
     = DecodeHeader_loop rest True (buf @ w)"
  by (subst DecodeHeader_loop.simps)
     (simp add: Let_def HasPrefix_def Index_encoded StdEncoding_Encode_length [symmetric]
        decode_encoded convert_utf8 hasNonWhitespace_fold [unfolded LF_def] LF_def)


lemma loop_empty: "DecodeHeader_loop [] betweenWords buf = Some buf"
  by (subst DecodeHeader_loop.simps) simp

lemma loop_foldedWords:
  assumes "ws \<noteq> []"
  shows "DecodeHeader_loop (foldedWords ''=?UTF-8?b?'' ws) betweenWords buf = Some (buf @ concat ws)"
    and "DecodeHeader_loop (LF # foldedWords '' =?UTF-8?b?'' ws) True buf = Some (buf @ concat ws)"
  using assms
proof (induction ws arbitrary: betweenWords buf)
  case Nil
  case 1 then show ?case by simp
  case 2 then show ?case by simp
next
  case (Cons w ws)
  case 1
  show ?case
  proof (cases ws)
    case Nil
    then show ?thesis
      using loop_first_word [of w "[]" betweenWords buf] by (simp add: loop_empty)
  next
    case (Cons v vs)
    then have "foldedWords ''=?UTF-8?b?'' (w # ws)
                 = ''=?UTF-8?b?'' @ StdEncoding_Encode w @ ''?=''
                     @ (LF # foldedWords '' =?UTF-8?b?'' ws)"
      by simp
    then show ?thesis
      using loop_first_word [of w "LF # foldedWords '' =?UTF-8?b?'' ws" betweenWords buf]
        Cons.IH(2) [of "buf @ w"] Cons
      by simp
  qed
next
  case (Cons w ws)
  case 2
  show ?case
  proof (cases ws)
    case Nil
    then show ?thesis
      using loop_next_word [of w "[]" buf] by (simp add: loop_empty)
  next
    case (Cons v vs)
    then have "LF # foldedWords '' =?UTF-8?b?'' (w # ws)
                 = LF # '' =?UTF-8?b?'' @ StdEncoding_Encode w @ ''?=''
                     @ (LF # foldedWords '' =?UTF-8?b?'' ws)"
      by simp
    then show ?thesis
      using loop_next_word [of w "LF # foldedWords '' =?UTF-8?b?'' ws" buf]
        Cons.IH(2) [of "buf @ w"] Cons
      by simp
  qed
qed

lemma DecodeHeader_foldedWords:
  assumes "ws \<noteq> []"
  shows "DecodeHeader (foldedWords ''=?UTF-8?b?'' ws) = Some (concat ws)"
proof -
  obtain r where r: "foldedWords ''=?UTF-8?b?'' ws = ''=?'' @ r"
    using assms by (cases ws; cases "tl ws") auto
  then have "Index (foldedWords ''=?UTF-8?b?'' ws) ''=?'' = Some 0"
    by (simp add: HasPrefix_def)
  then show ?thesis
    using loop_foldedWords(1) [OF assms, of False "[]"] by (simp add: DecodeHeader_def)
qed

subsection \<open>The submission: uploadMessage and sendMail\<close>

text \<open>
  Claim C2. Whenever \<open>uploadMessage\<close> has sent its request and the client returned a
  response: with status code 200 the result is \<open>nil\<close>; with any other status code the
  result is the error whose text is made of the response's status and body.
\<close>

theorem uploadMessage_status:
  assumes "HTTPDo c r \<in> set (snd (uploadMessage w u m))" and "Do w c r = Inr resp"
  shows "(StatusCode resp = 200 \<longrightarrow> fst (uploadMessage w u m) = None)
       \<and> (StatusCode resp \<noteq> 200 \<longrightarrow>
            fst (uploadMessage w u m)
              = Some (errorString (''unexpected status: '' @ Status resp @ '', body: '' @ Body resp)))"
  using assms
  by (auto simp: uploadMessage_def Let_def StatusOK_def split: sum.splits if_splits)

theorem uploadMessage_status_witness:
  "fst (uploadMessage (answering_world 500 ''500 Internal Server Error'' ''denied'')
          ''http://x.onion/upload'' ''hi'')
     = Some (errorString ''unexpected status: 500 Internal Server Error, body: denied'')
   \<and> fst (uploadMessage (answering_world 200 ''200 OK'' '''') ''http://x.onion/upload'' ''hi'')
     = None"
proof -
  let ?c = "\<lparr>Transport = \<lparr>Dial = SOCKS5_Dialer ''tcp'' ''127.0.0.1:9050'' None Direct\<rparr>,
             Timeout = 30 * Second\<rparr>"
  let ?r = "\<lparr>Method = ''POST'', URL = ''http://x.onion/upload'', RequestBody = ''hi'',
             Header = [(''Content-Type'', ''application/octet-stream'')]\<rparr>"
  let ?w = "answering_world 500 ''500 Internal Server Error'' ''denied''"
  let ?v = "answering_world 200 ''200 OK'' ''''"
  have 1: "HTTPDo ?c ?r \<in> set (snd (uploadMessage ?w ''http://x.onion/upload'' ''hi''))"
    by (simp add: uploadMessage_def answering_world_def proxy_SOCKS5_def http_NewRequest_def
        Header_Set_def StatusOK_def)
  have 2: "Do ?w ?c ?r = Inr \<lparr>StatusCode = 500, Status = ''500 Internal Server Error'', Body = ''denied''\<rparr>"
    by (simp add: answering_world_def)
  have 3: "HTTPDo ?c ?r \<in> set (snd (uploadMessage ?v ''http://x.onion/upload'' ''hi''))"
    by (simp add: uploadMessage_def answering_world_def proxy_SOCKS5_def http_NewRequest_def
        Header_Set_def StatusOK_def)
  have 4: "Do ?v ?c ?r = Inr \<lparr>StatusCode = 200, Status = ''200 OK'', Body = ''''\<rparr>"
    by (simp add: answering_world_def)
  show ?thesis
    using uploadMessage_status [OF 1 2] uploadMessage_status [OF 3 4] by simp
qed

text \<open>
  Claim C3. When the guards of \<open>sendMail\<close> pass, the goroutine uploads to the URL made
  of the host, then \<open>:port\<close> when the port is not empty, with \<open>http://\<close> put in front
  unless the address already starts with \<open>http://\<close> or \<open>https://\<close>, and \<open>/upload\<close> at
  the end. That URL has a scheme, ends in \<open>/upload\<close>, and is the URL of every
  request sent.
\<close>

theorem serverURL_composition:
  assumes "config q = Some cfg" and "TrimSpace (textArea_Text q) \<noteq> []"
    and "a = OnionAddress cfg @ (if Port cfg \<noteq> [] then '':'' @ Port cfg else [])"
    and "url = (if HasPrefix a ''http://'' \<or> HasPrefix a ''https://'' then a else ''http://'' @ a)
                 @ ''/upload''"
  shows "sendMail w q = [Go (sendMail_go w url (textArea_Text q))]
       \<and> (HasPrefix url ''http://'' \<or> HasPrefix url ''https://'')
       \<and> HasSuffix url ''/upload''
       \<and> (\<forall>c r. HTTPDo c r \<in> set (sendMail_go w url (textArea_Text q)) \<longrightarrow> URL r = url)"
proof -
  have u: "serverURL cfg = url"
    using assms(3,4) by (auto simp: serverURL_def Let_def)
  have s: "sendMail w q = [Go (sendMail_go w url (textArea_Text q))]"
    using assms(1,2) u by (simp add: sendMail_def Let_def)
  have p: "HasPrefix url ''http://'' \<or> HasPrefix url ''https://''"
  proof (cases "HasPrefix a ''http://'' \<or> HasPrefix a ''https://''")
    case True
    then show ?thesis using assms(4) by (auto simp: HasPrefix_def)
  next
    case False
    then show ?thesis using assms(4) by (simp add: HasPrefix_def)
  qed
  have e: "HasSuffix url ''/upload''"
    using assms(4) by (simp add: HasSuffix_def)
  have d: "\<forall>c r. HTTPDo c r \<in> set (sendMail_go w url (textArea_Text q)) \<longrightarrow> URL r = url"
    by (auto simp: sendMail_go_def uploadMessage_def Let_def http_NewRequest_def Header_Set_def
        showError_def showSuccess_def split: sum.splits option.splits if_splits)
  from s p e d show ?thesis by blast
qed

theorem serverURL_composition_witness:
  "sendMail refusing_world
     \<lparr>config = Some \<lparr>OnionAddress = ''abc.onion'', Port = ''8080''\<rparr>, textArea_Text = ''hi''\<rparr>
     = [Go (sendMail_go refusing_world ''http://abc.onion:8080/upload'' ''hi'')]
   \<and> HasPrefix ''http://abc.onion:8080/upload'' ''http://''
   \<and> HasSuffix ''http://abc.onion:8080/upload'' ''/upload''"
proof -
  let ?cfg = "\<lparr>OnionAddress = ''abc.onion'', Port = ''8080''\<rparr>"
  let ?q = "\<lparr>config = Some ?cfg, textArea_Text = ''hi''\<rparr>"
  have 1: "config ?q = Some ?cfg" by simp
  have 2: "TrimSpace (textArea_Text ?q) \<noteq> []" by (simp add: asciiSpace_def)
  have 3: "''abc.onion:8080'' = OnionAddress ?cfg @ (if Port ?cfg \<noteq> [] then '':'' @ Port ?cfg else [])"
    by simp
  have 4: "''http://abc.onion:8080/upload''
             = (if HasPrefix ''abc.onion:8080'' ''http://'' \<or> HasPrefix ''abc.onion:8080'' ''https://''
                then ''abc.onion:8080'' else ''http://'' @ ''abc.onion:8080'') @ ''/upload''"
    by (simp add: HasPrefix_def)
  show ?thesis
    using serverURL_composition [OF 1 2 3 4, of refusing_world]
    by (simp add: HasPrefix_def HasSuffix_def)
qed

text \<open>
  Claim C7. If \<open>proxy.SOCKS5\<close> fails, \<open>uploadMessage\<close> returns the error
  \<open>can't connect to Tor proxy\<close> wrapping the cause, and no request has been sent.
  Every request that is sent goes through a client whose transport dials with the
  SOCKS5 dialer for \<open>127.0.0.1:9050\<close>.
\<close>

theorem uploadMessage_proxy_only:
  "(proxy_SOCKS5 w ''tcp'' ''127.0.0.1:9050'' None Direct = Inl err \<longrightarrow>
      uploadMessage w u m
        = (Some (wrapError (''can'' @ [CHR 0x27] @ ''t connect to Tor proxy: '' @ Error err) err), []))
   \<and> (\<forall>c r. HTTPDo c r \<in> set (snd (uploadMessage w u m)) \<longrightarrow>
         proxy_SOCKS5 w ''tcp'' ''127.0.0.1:9050'' None Direct
           = Inr (SOCKS5_Dialer ''tcp'' ''127.0.0.1:9050'' None Direct)
         \<and> c = \<lparr>Transport = \<lparr>Dial = SOCKS5_Dialer ''tcp'' ''127.0.0.1:9050'' None Direct\<rparr>,
                Timeout = 30 * Second\<rparr>)"
  by (auto simp: uploadMessage_def Let_def Errorf_w_def proxy_SOCKS5_def
      split: sum.splits option.splits if_splits)

theorem uploadMessage_proxy_only_witness:
  "uploadMessage refusing_world ''http://x.onion/upload'' ''hi''
     = (Some (wrapError (''can'' @ [CHR 0x27] @ ''t connect to Tor proxy: no proxy'')
                (errorString ''no proxy'')), [])
   \<and> snd (uploadMessage (answering_world 200 ''200 OK'' '''') ''http://x.onion/upload'' ''hi'')
     = [HTTPDo \<lparr>Transport = \<lparr>Dial = SOCKS5_Dialer ''tcp'' ''127.0.0.1:9050'' None Direct\<rparr>,
                Timeout = 30 * Second\<rparr>
          \<lparr>Method = ''POST'', URL = ''http://x.onion/upload'', RequestBody = ''hi'',
            Header = [(''Content-Type'', ''application/octet-stream'')]\<rparr>,
        PrintSent 1500000000]"
proof -
  have 1: "proxy_SOCKS5 refusing_world ''tcp'' ''127.0.0.1:9050'' None Direct
             = Inl (errorString ''no proxy'')"
    by (simp add: proxy_SOCKS5_def refusing_world_def)
  have 2: "snd (uploadMessage (answering_world 200 ''200 OK'' '''') ''http://x.onion/upload'' ''hi'')
     = [HTTPDo \<lparr>Transport = \<lparr>Dial = SOCKS5_Dialer ''tcp'' ''127.0.0.1:9050'' None Direct\<rparr>,
                Timeout = 30 * Second\<rparr>
          \<lparr>Method = ''POST'', URL = ''http://x.onion/upload'', RequestBody = ''hi'',
            Header = [(''Content-Type'', ''application/octet-stream'')]\<rparr>,
        PrintSent 1500000000]"
    by (simp add: uploadMessage_def answering_world_def proxy_SOCKS5_def http_NewRequest_def
        Header_Set_def StatusOK_def)
  show ?thesis
    using uploadMessage_proxy_only
      [of refusing_world "errorString ''no proxy''" "''http://x.onion/upload''" "''hi''"] 1 2
    by simp
qed

text \<open>
  Claim C8. When the guards of \<open>sendMail\<close> pass, the goroutine it starts shows exactly
  one dialog: the error dialog when \<open>uploadMessage\<close> returns an error, the success
  dialog when it returns \<open>nil\<close>.
\<close>

theorem sendMail_notifies_once:
  assumes "config q = Some cfg" and "TrimSpace (textArea_Text q) \<noteq> []"
  shows "\<exists>body. sendMail w q = [Go body]
           \<and> length (filter is_notification body) = 1
           \<and> filter is_notification body =
               (case fst (uploadMessage w (serverURL cfg) (textArea_Text q)) of
                  Some e \<Rightarrow> [showError (''Send error: '' @ Error e)]
                | None \<Rightarrow> [showSuccess ''Message sent successfully!''])"
proof -
  have n: "filter is_notification (snd (uploadMessage w u m)) = []" for u m
    by (auto simp: uploadMessage_def Let_def is_notification_def split: sum.splits)
  have "sendMail w q = [Go (sendMail_go w (serverURL cfg) (textArea_Text q))]"
    using assms by (simp add: sendMail_def Let_def)
  moreover have "filter is_notification (sendMail_go w (serverURL cfg) (textArea_Text q)) =
               (case fst (uploadMessage w (serverURL cfg) (textArea_Text q)) of
                  Some e \<Rightarrow> [showError (''Send error: '' @ Error e)]
                | None \<Rightarrow> [showSuccess ''Message sent successfully!''])"
    using n [of "serverURL cfg" "textArea_Text q"]
    by (cases "uploadMessage w (serverURL cfg) (textArea_Text q)")
       (auto simp: sendMail_go_def is_notification_def showError_def showSuccess_def
          split: option.splits)
  ultimately show ?thesis
    by (auto split: option.splits)
qed

theorem sendMail_notifies_once_witness:
  "\<exists>body. sendMail (answering_world 500 ''500 Internal Server Error'' ''denied'')
            \<lparr>config = Some \<lparr>OnionAddress = ''abc.onion'', Port = []\<rparr>, textArea_Text = ''hi''\<rparr>
            = [Go body]
         \<and> filter is_notification body
           = [ShowInformation ''Error''
                ''Send error: unexpected status: 500 Internal Server Error, body: denied'']"
proof -
  let ?w = "answering_world 500 ''500 Internal Server Error'' ''denied''"
  let ?cfg = "\<lparr>OnionAddress = ''abc.onion'', Port = []\<rparr>"
  let ?q = "\<lparr>config = Some ?cfg, textArea_Text = ''hi''\<rparr>"
  have 1: "config ?q = Some ?cfg" by simp
  have 2: "TrimSpace (textArea_Text ?q) \<noteq> []" by (simp add: asciiSpace_def)
  have 3: "fst (uploadMessage ?w (serverURL ?cfg) (textArea_Text ?q))
             = Some (errorString ''unexpected status: 500 Internal Server Error, body: denied'')"
    by (simp add: uploadMessage_def answering_world_def proxy_SOCKS5_def http_NewRequest_def
        Header_Set_def StatusOK_def)
  show ?thesis
    using sendMail_notifies_once [OF 1 2, of ?w] unfolding 3
    by (auto simp: showError_def)
qed

text \<open>
  Claim C10. When the configuration is nil, or the text trimmed of white space is empty,
  \<open>sendMail\<close> shows one error dialog and does nothing else: no goroutine is started
  and no request is sent.
\<close>

theorem sendMail_guards:
  assumes "config q = None \<or> TrimSpace (textArea_Text q) = []"
  shows "sendMail w q =
           [ShowInformation ''Error''
              (if config q = None then ''Configuration not loaded'' else ''Message is empty'')]"
  using assms by (auto simp: sendMail_def Let_def showError_def split: option.splits)

theorem sendMail_guards_witness:
  "sendMail (answering_world 200 ''200 OK'' '''') \<lparr>config = None, textArea_Text = ''hi''\<rparr>
     = [ShowInformation ''Error'' ''Configuration not loaded'']
   \<and> sendMail (answering_world 200 ''200 OK'' '''')
       \<lparr>config = Some \<lparr>OnionAddress = ''abc.onion'', Port = []\<rparr>,
        textArea_Text = [CHR '' '', CHR 0x09, LF]\<rparr>
     = [ShowInformation ''Error'' ''Message is empty'']"
proof -
  let ?w = "answering_world 200 ''200 OK'' ''''"
  let ?p = "\<lparr>config = None, textArea_Text = ''hi''\<rparr>"
  let ?q = "\<lparr>config = Some \<lparr>OnionAddress = ''abc.onion'', Port = []\<rparr>,
             textArea_Text = [CHR '' '', CHR 0x09, LF]\<rparr>"
  have 1: "config ?p = None \<or> TrimSpace (textArea_Text ?p) = []" by simp
  have "TrimSpace [CHR '' '', CHR 0x09, LF] = []"
    by (rule TrimSpace_asciiSpace) (simp add: asciiSpace_def LF_def)
  then have 2: "config ?q = None \<or> TrimSpace (textArea_Text ?q) = []" by simp
  show ?thesis
    using sendMail_guards [OF 1, of ?w] sendMail_guards [OF 2, of ?w] by simp
qed

subsection \<open>The header encoder: encodeMIMESubject\<close>

text \<open>
  Claim C9. The empty subject is encoded as the empty string.
\<close>

theorem encodeMIMESubject_empty: "encodeMIMESubject [] = []"
  by (simp add: encodeMIMESubject_def)

text \<open>
  Claim C4. For a subject that is not empty, \<open>encodeMIMESubject\<close> is the folding of the
  specification applied to the string that \<open>mime.BEncoding.Encode\<close> returns.
\<close>

theorem encodeMIMESubject_reference:
  "input \<noteq> [] \<Longrightarrow> encodeMIMESubject input = reference_fold (BEncoding_Encode ''UTF-8'' input)"
proof -
  assume ne: "input \<noteq> []"
  define encoded where "encoded = BEncoding_Encode ''UTF-8'' input"
  define parts where "parts = Split encoded ''?=''"
  have "parts \<noteq> []" unfolding parts_def by (rule Split_nonempty) simp
  then have len: "length parts \<le> 1 \<longleftrightarrow> length parts = 1"
    by (cases parts) auto
  show ?thesis
    using ne len
    unfolding encodeMIMESubject_def reference_fold_def Let_def
      encoded_def [symmetric] parts_def [symmetric]
    by (simp add: foldParts_concat TrimSuffix_LF)
qed

theorem encodeMIMESubject_reference_witness:
  "encodeMIMESubject ''a?=b'' = reference_fold (BEncoding_Encode ''UTF-8'' ''a?=b'')
   \<and> encodeMIMESubject ''a?=b'' = ''a?='' @ [LF] @ ''b''"
proof -
  have "reference_fold (BEncoding_Encode ''UTF-8'' ''a?=b'') = ''a?='' @ [LF] @ ''b''"
    by code_simp
  then show ?thesis using encodeMIMESubject_reference [of "''a?=b''"] by simp
qed

text \<open>
  Claim C1, as the code has it. \<open>mime.BEncoding.Encode\<close> returns a string of printable
  ASCII characters and tabs unchanged, so the subject \<open>Hello\<close> comes back as it is and
  not as an encoded-word.
\<close>

theorem encodeMIMESubject_ascii_counterexample: "encodeMIMESubject ''Hello'' = ''Hello''"
  by code_simp

text \<open>
  Claim C1, amended. A subject that is not empty and holds a byte that is neither
  printable ASCII nor a tab is returned as encoded-words: the output starts with
  \<open>=?UTF-8?b?\<close> (the library writes the letter of the encoding in lower case) and ends
  with \<open>?=\<close>. A subject of printable ASCII characters and tabs is not encoded: the
  encoder returns it unchanged, and so does \<open>encodeMIMESubject\<close> when the subject
  does not contain \<open>?=\<close>.
\<close>

theorem encodeMIMESubject_encoded_word:
  assumes "input \<noteq> []"
  shows "((\<exists>c \<in> set input. \<not> plainByte c) \<longrightarrow>
            HasPrefix (encodeMIMESubject input) ''=?UTF-8?b?''
            \<and> HasSuffix (encodeMIMESubject input) ''?='')
       \<and> ((\<forall>c \<in> set input. plainByte c) \<longrightarrow>
            BEncoding_Encode ''UTF-8'' input = input
            \<and> (Index input ''?='' = None \<longrightarrow> encodeMIMESubject input = input))"
proof (cases "needsEncoding input")
  case True
  from encodeMIMESubject_words [OF True]
  obtain ws where "ws \<noteq> []" "encodeMIMESubject input = foldedWords ''=?UTF-8?b?'' ws"
    by blast
  then have "HasPrefix (encodeMIMESubject input) ''=?UTF-8?b?''
             \<and> HasSuffix (encodeMIMESubject input) ''?=''"
    using foldedWords_prefix [of ws "''=?UTF-8?b?''"] foldedWords_suffix [of ws "''=?UTF-8?b?''"]
    by simp
  moreover from True have "\<exists>c \<in> set input. \<not> plainByte c"
    by (simp add: needsEncoding_iff)
  ultimately show ?thesis by blast
next
  case False
  then have plain: "\<forall>c \<in> set input. plainByte c"
    by (simp add: needsEncoding_iff)
  from False have enc: "BEncoding_Encode ''UTF-8'' input = input"
    by (simp add: BEncoding_Encode_def)
  have "encodeMIMESubject input = input" if "Index input ''?='' = None"
    using assms Index_None_Split [OF _ that]
    by (simp add: encodeMIMESubject_def enc)
  with plain enc show ?thesis by blast
qed

theorem encodeMIMESubject_encoded_word_witness:
  "HasPrefix (encodeMIMESubject [CHR 0xC3, CHR 0xA9]) ''=?UTF-8?b?''
   \<and> HasSuffix (encodeMIMESubject [CHR 0xC3, CHR 0xA9]) ''?=''
   \<and> encodeMIMESubject [CHR 0xC3, CHR 0xA9] = ''=?UTF-8?b?w6k=?=''
   \<and> encodeMIMESubject ''Re: hi'' = ''Re: hi''"
proof -
  have 1: "[CHR 0xC3, CHR 0xA9] \<noteq> []" by simp
  have 2: "\<exists>c \<in> set [CHR 0xC3, CHR 0xA9]. \<not> plainByte c" by (simp add: plainByte_def)
  have 3: "''Re: hi'' \<noteq> []" by simp
  have 4: "\<forall>c \<in> set ''Re: hi''. plainByte c" by (simp add: plainByte_def)
  have 5: "Index ''Re: hi'' ''?='' = None" by (simp add: HasPrefix_def)
  have 6: "encodeMIMESubject [CHR 0xC3, CHR 0xA9] = ''=?UTF-8?b?w6k=?=''" by code_simp
  show ?thesis
    using encodeMIMESubject_encoded_word [OF 1] encodeMIMESubject_encoded_word [OF 3] 2 4 5 6
    by blast
qed


text \<open>
  Claim C6, as the code has it. A subject of 76 letters \<open>a\<close> is returned unchanged: one
  line of 76 characters, longer than the 75 characters that the encoder allows for an
  encoded-word.
\<close>

theorem encodeMIMESubject_long_line_counterexample:
  "encodeMIMESubject (replicate 76 (CHR ''a'')) = replicate 76 (CHR ''a'')
   \<and> Split (replicate 76 (CHR ''a'')) [LF] = [replicate 76 (CHR ''a'')]
   \<and> \<not> length (replicate 76 (CHR ''a'')) \<le> maxEncodedWordLen"
  by code_simp

text \<open>
  Claim C6, amended. When the subject holds a byte that is neither printable ASCII nor a
  tab (so that it is encoded), the output is a well-formed folded header value: its
  first line is one encoded-word, every further line is a space followed by one
  encoded-word; every line break comes right after the closing marker \<open>?=\<close> of an
  encoded-word, the output does not end with a line break, and no line is longer than
  \<open>maxEncodedWordLen\<close>, 75 characters. A subject of printable ASCII characters and tabs
  that does not contain \<open>?=\<close> is returned unchanged and holds no line break, whatever
  its length.
\<close>

theorem encodeMIMESubject_folding:
  "((\<exists>c \<in> set input. \<not> plainByte c) \<longrightarrow>
      foldedHeaderValue (encodeMIMESubject input)
      \<and> (\<forall>pre post. encodeMIMESubject input = pre @ LF # post \<longrightarrow>
            (\<exists>q x. pre = q @ x \<and> encodedWord x))
      \<and> \<not> HasSuffix (encodeMIMESubject input) [LF]
      \<and> (\<forall>line \<in> set (Split (encodeMIMESubject input) [LF]). length line \<le> maxEncodedWordLen))
   \<and> ((\<forall>c \<in> set input. plainByte c) \<and> Index input ''?='' = None \<longrightarrow>
      encodeMIMESubject input = input \<and> LF \<notin> set (encodeMIMESubject input))"
proof (cases "needsEncoding input")
  case True
  then have ne: "input \<noteq> []" by (auto simp: needsEncoding.simps [of input])
  from encodeMIMESubject_words [OF True]
  obtain ws where ws: "ws \<noteq> []" "\<forall>w \<in> set ws. length w \<le> maxBase64Len"
    "encodeMIMESubject input = foldedWords ''=?UTF-8?b?'' ws"
    by blast
  have a: "foldedHeaderValue (encodeMIMESubject input)"
    unfolding ws(3) by (rule foldedWords_foldedHeaderValue [OF ws(1,2)])
  have b: "\<forall>pre post. encodeMIMESubject input = pre @ LF # post \<longrightarrow>
              (\<exists>q x. pre = q @ x \<and> encodedWord x)"
    unfolding ws(3) using foldedWords_break [OF _ ws(2)] by blast
  have c: "\<not> HasSuffix (encodeMIMESubject input) [LF]"
    using foldEncoded_breaks [OF BEncoding_Encode_no_LF [of input]]
    by (simp add: encodeMIMESubject_foldEncoded [OF ne])
  have d: "\<forall>line \<in> set (Split (encodeMIMESubject input) [LF]). length line \<le> maxEncodedWordLen"
    unfolding ws(3) using foldedWords_lines [OF _ ws(2)] by blast
  from True have "\<not> (\<forall>c \<in> set input. plainByte c)" by (simp add: needsEncoding_iff)
  with a b c d show ?thesis by blast
next
  case False
  then have plain: "\<forall>c \<in> set input. plainByte c" by (simp add: needsEncoding_iff)
  have "encodeMIMESubject input = input \<and> LF \<notin> set (encodeMIMESubject input)"
    if b: "Index input ''?='' = None"
  proof -
    have "encodeMIMESubject input = input"
    proof (cases "input = []")
      case True
      then show ?thesis by (simp add: encodeMIMESubject_def)
    next
      case ne: False
      from False have "BEncoding_Encode ''UTF-8'' input = input"
        by (simp add: BEncoding_Encode_def)
      with ne Index_None_Split [OF _ b] show ?thesis
        by (simp add: encodeMIMESubject_def)
    qed
    with plain_no_LF [OF plain] show ?thesis by simp
  qed
  with plain show ?thesis by blast
qed

theorem encodeMIMESubject_folding_witness:
  "Split (encodeMIMESubject (replicate 46 (CHR 0x01))) [LF]
     = [''=?UTF-8?b?AQEBAQEBAQEBAQEBAQEBAQEBAQEBAQEBAQEBAQEBAQEBAQEBAQEBAQEBAQEB?='',
        '' =?UTF-8?b?AQ==?='']
   \<and> foldedHeaderValue (encodeMIMESubject (replicate 46 (CHR 0x01)))
   \<and> \<not> HasSuffix (encodeMIMESubject (replicate 46 (CHR 0x01))) [LF]
   \<and> length ''=?UTF-8?b?AQEBAQEBAQEBAQEBAQEBAQEBAQEBAQEBAQEBAQEBAQEBAQEBAQEBAQEBAQEB?=''
         \<le> maxEncodedWordLen
   \<and> length '' =?UTF-8?b?AQ==?='' \<le> maxEncodedWordLen
   \<and> encodeMIMESubject ''Re: hi'' = ''Re: hi''
   \<and> LF \<notin> set (encodeMIMESubject ''Re: hi'')"
proof -
  have 2: "\<exists>c \<in> set (replicate 46 (CHR 0x01)). \<not> plainByte c" by (simp add: plainByte_def)
  have 3: "Split (encodeMIMESubject (replicate 46 (CHR 0x01))) [LF]
     = [''=?UTF-8?b?AQEBAQEBAQEBAQEBAQEBAQEBAQEBAQEBAQEBAQEBAQEBAQEBAQEBAQEBAQEB?='',
        '' =?UTF-8?b?AQ==?='']"
    by code_simp
  have 4: "\<forall>c \<in> set ''Re: hi''. plainByte c" by (simp add: plainByte_def)
  have 5: "Index ''Re: hi'' ''?='' = None" by (simp add: HasPrefix_def)
  from encodeMIMESubject_folding [of "replicate 46 (CHR 0x01)"] 2
  have "foldedHeaderValue (encodeMIMESubject (replicate 46 (CHR 0x01)))"
    and "\<not> HasSuffix (encodeMIMESubject (replicate 46 (CHR 0x01))) [LF]"
    and "\<forall>line \<in> set (Split (encodeMIMESubject (replicate 46 (CHR 0x01))) [LF]).
           length line \<le> maxEncodedWordLen"
    by blast+
  moreover from encodeMIMESubject_folding [of "''Re: hi''"] 4 5
  have "encodeMIMESubject ''Re: hi'' = ''Re: hi''"
    and "LF \<notin> set (encodeMIMESubject ''Re: hi'')"
    by blast+
  ultimately show ?thesis unfolding 3 by simp
qed

text \<open>
  Claim C5, as the code has it. A subject that already looks like an encoded-word is made
  of printable ASCII, so it is returned unchanged, and the decoder then decodes it: the
  subject \<open>=?UTF-8?b?SGVsbG8=?=\<close> comes back as \<open>Hello\<close>.
\<close>

theorem encodeMIMESubject_round_trip_counterexample:
  "DecodeHeader (encodeMIMESubject ''=?UTF-8?b?SGVsbG8=?='') = Some ''Hello''"
  by code_simp

text \<open>
  Claim C5, amended. Decoding the output gives the subject back when the subject holds a
  byte that is neither printable ASCII nor a tab (it is then encoded), and when the
  subject is made of printable ASCII characters and tabs and contains neither \<open>=?\<close>
  nor \<open>?=\<close> (the empty subject among them).
\<close>

theorem encodeMIMESubject_round_trip:
  "((\<exists>c \<in> set input. \<not> plainByte c) \<longrightarrow>
      DecodeHeader (encodeMIMESubject input) = Some input)
   \<and> ((\<forall>c \<in> set input. plainByte c) \<and> Index input ''=?'' = None \<and> Index input ''?='' = None \<longrightarrow>
      DecodeHeader (encodeMIMESubject input) = Some input)"
proof (cases "needsEncoding input")
  case True
  from encodeMIMESubject_words [OF True]
  obtain ws where "ws \<noteq> []" "concat ws = input"
    "encodeMIMESubject input = foldedWords ''=?UTF-8?b?'' ws"
    by blast
  then have "DecodeHeader (encodeMIMESubject input) = Some input"
    using DecodeHeader_foldedWords [of ws] by simp
  moreover from True have "\<not> (\<forall>c \<in> set input. plainByte c)"
    by (simp add: needsEncoding_iff)
  ultimately show ?thesis by blast
next
  case False
  then have plain: "\<forall>c \<in> set input. plainByte c"
    by (simp add: needsEncoding_iff)
  have "DecodeHeader (encodeMIMESubject input) = Some input"
    if a: "Index input ''=?'' = None" and b: "Index input ''?='' = None"
  proof -
    have "encodeMIMESubject input = input"
    proof (cases "input = []")
      case True
      then show ?thesis by (simp add: encodeMIMESubject_def)
    next
      case ne: False
      from False have "BEncoding_Encode ''UTF-8'' input = input"
        by (simp add: BEncoding_Encode_def)
      with ne Index_None_Split [OF _ b] show ?thesis
        by (simp add: encodeMIMESubject_def)
    qed
    with a show ?thesis by (simp add: DecodeHeader_def)
  qed
  with plain show ?thesis by blast
qed

theorem encodeMIMESubject_round_trip_witness:
  "DecodeHeader (encodeMIMESubject [CHR 0xC3, CHR 0xA9]) = Some [CHR 0xC3, CHR 0xA9]
   \<and> DecodeHeader (encodeMIMESubject ''Re: hi'') = Some ''Re: hi''"
proof -
  have 1: "\<exists>c \<in> set [CHR 0xC3, CHR 0xA9]. \<not> plainByte c" by (simp add: plainByte_def)
  have 2: "\<forall>c \<in> set ''Re: hi''. plainByte c" by (simp add: plainByte_def)
  have 3: "Index ''Re: hi'' ''=?'' = None" "Index ''Re: hi'' ''?='' = None"
    by (simp_all add: HasPrefix_def)
  from encodeMIMESubject_round_trip [of "[CHR 0xC3, CHR 0xA9]"] 1
    encodeMIMESubject_round_trip [of "''Re: hi''"] 2 3
  show ?thesis by blast
qed

end
